theory Spec2Isabelle
  imports Main
begin

section \<open>The list picker of \<^verbatim>\<open>src/lib/main.js\<close>\<close>

text \<open>
  The module exports one function: it takes the options, returns a promise, and keeps the
  whole session in the variables of one closure. The embedding makes that closure a record
  (\<open>state\<close>), every inner function of the closure a function on that record, and every
  call that leaves the module (a draft line of the terminal, the search collaborator, the
  promise's \<open>resolve\<close> and \<open>reject\<close>) an entry of a log kept in the record.
\<close>

subsection \<open>JavaScript values of the options\<close>

datatype jsval =
    Undefined | Null | Boolean bool | Number int | String string | Object | Function

fun truthy :: "jsval \<Rightarrow> bool" where
  "truthy Undefined = False"
| "truthy Null = False"
| "truthy (Boolean b) = b"
| "truthy (Number n) = (n \<noteq> 0)"
| "truthy (String s) = (s \<noteq> [])"
| "truthy Object = True"
| "truthy Function = True"

fun typeof :: "jsval \<Rightarrow> string" where
  "typeof Undefined = ''undefined''"
| "typeof Null = ''object''"
| "typeof (Boolean b) = ''boolean''"
| "typeof (Number n) = ''number''"
| "typeof (String s) = ''string''"
| "typeof Object = ''object''"
| "typeof Function = ''function''"

text \<open>
  The options are the fields of the object that the exported function takes apart.
  \<open>size\<close> is a number; \<open>data\<close> and \<open>search\<close> are any value; of \<open>stdin\<close> the
  constructor uses one thing that not every stream has, \<open>setRawMode\<close>, which is a method
  of the TTY streams only. \<open>maxStringLength\<close> is not an option: it is the length of the
  longest string of the JavaScript engine, beyond which \<open>" ".repeat(size)\<close> throws
  instead of making the string (\<open>2^29 - 24\<close> in the V8 of a 64-bit Node.js).
\<close>

record options =
  opt_size :: int
  opt_data :: jsval
  opt_search :: jsval
  fuzzyOnSearch :: bool
  debounceDelay :: nat
  cache :: bool
  stdin_isTTY :: bool
  maxStringLength :: nat

subsection \<open>Items, arrays with identity, errors\<close>

record item =
  label :: string
  highlight :: "nat list"
  index :: nat

text \<open>
  \<open>terms\<close> holds a JavaScript array: the race check compares two arrays by identity
  (\<open>_terms !== terms\<close>), the query string reads the elements. An array is therefore an
  identity together with its elements; \<open>main.js\<close> never writes into one.
\<close>

record array =
  ident :: nat
  elems :: "string list"

definition join :: "array \<Rightarrow> string" where
  "join a = concat (elems a)"

datatype error =
    RequiredOption
  | SearchNotFunction string
  | InvalidDataset
  | RangeError
  | TypeError
  | Rejection string

datatype outcome = Resolved "item option" | Rejected error

subsection \<open>The terminal: styled text and draft lines\<close>

datatype chalk = Bold | Dim | Inverse | Underline

type_synonym stext = "(chalk list \<times> string) list"

definition plain :: "string \<Rightarrow> stext" where
  "plain s = (if s = [] then [] else [([], s)])"

definition styled :: "chalk \<Rightarrow> stext \<Rightarrow> stext" where
  "styled c t = map (\<lambda>(cs, s). (c # cs, s)) t"

datatype draft = UpdateInput stext | UpdateStatus stext | UpdateOutput nat stext

text \<open>
  \<open>String(n)\<close> for a number \<open>n\<close> that is a natural number: its decimal digits (which is
  what JavaScript gives below \<open>10^21\<close>).
\<close>

fun toString :: "nat \<Rightarrow> string" where
  "toString n =
     (if n < 10 then [char_of (48 + n)]
      else toString (n div 10) @ [char_of (48 + n mod 10)])"

declare toString.simps [simp del]

subsection \<open>The closure's variables\<close>

record fetch =
  f_terms :: nat
  f_query :: string
  f_page :: nat

record response =
  data :: "item list"
  total_n :: nat
  more_flag :: bool

type_synonym cached = "nat \<times> item list \<times> nat \<times> bool"

record state =
  found :: "item list"
  count :: nat
  terms :: array
  line :: int
  start :: int
  dataset :: "item list option"
  loadedPages :: nat
  morePages :: bool
  loadingNextPage :: "nat set"
  cachedResults :: "string \<rightharpoonup> cached"
  message_var :: string
  loading_var :: bool
  drafts :: "draft list"
  searches :: "fetch list"
  timer :: "nat option"
  stdin_raw :: bool
  listeners :: bool
  settled :: "outcome option"

type_synonym result = "(error \<times> state) + state"

fun st :: "result \<Rightarrow> state" where
  "st (Inl (e, s)) = s"
| "st (Inr s) = s"

subsection \<open>Display\<close>

definition updateStatus :: "string option \<Rightarrow> bool option \<Rightarrow> state \<Rightarrow> state" where
  "updateStatus message loading s =
     (let m = (case message of None \<Rightarrow> message_var s | Some m' \<Rightarrow> m');
          l = (case loading of None \<Rightarrow> loading_var s | Some l' \<Rightarrow> l');
          string = (if m \<noteq> [] then styled Bold (plain m) else []);
          string' = (if l then string @ styled Dim
                        (plain (if string \<noteq> [] then '' (loading...)'' else ''Loading...''))
                     else string)
      in s\<lparr>message_var := m, loading_var := l, drafts := drafts s @ [UpdateStatus string']\<rparr>)"

definition formatFuzzyResult :: "item \<Rightarrow> stext" where
  "formatFuzzyResult r =
     concat (map (\<lambda>(c, i). if i \<in> set (highlight r) then styled Underline (plain [c])
                             else plain [c])
                 (zip (label r) [0 ..< length (label r)]))"

definition formatSimpleResult :: "item \<Rightarrow> stext" where
  "formatSimpleResult r = plain (label r)"

definition format_fn :: "options \<Rightarrow> item \<Rightarrow> stext" where
  "format_fn opts =
     (if truthy (opt_data opts) \<or> fuzzyOnSearch opts then formatFuzzyResult
      else formatSimpleResult)"

text \<open>
  \<open>Array.prototype.slice\<close>: a negative bound counts from the end, and both bounds are
  cut to the array.
\<close>

definition slice :: "'a list \<Rightarrow> int \<Rightarrow> int \<Rightarrow> 'a list" where
  "slice xs a b =
     (let n = int (length xs);
          a' = (if a < 0 then max 0 (n + a) else min a n);
          b' = (if b < 0 then max 0 (n + b) else min b n)
      in take (nat (b' - a')) (drop (nat a') xs))"

text \<open>
  The rows of \<open>updateList\<close>, in order. \<open>" ".repeat(k)\<close> throws a \<open>RangeError\<close> for
  a negative \<open>k\<close>: the row whose rank has more digits than \<open>count\<close> stops the loop.
\<close>

fun drawRows :: "options \<Rightarrow> nat \<Rightarrow> int \<Rightarrow> nat \<Rightarrow> item list \<Rightarrow> draft list
                 \<Rightarrow> (error \<times> draft list) + draft list" where
  "drawRows opts padLength ln i [] acc = Inr acc"
| "drawRows opts padLength ln i (r # rs) acc =
     (if padLength < length (toString (index r + 1)) then Inl (RangeError, acc)
      else
        let pad = replicate (padLength - length (toString (index r + 1))) CHR '' '';
            prefix = styled Dim (plain (pad @ toString (index r + 1) @ '' > ''));
            string = prefix @ format_fn opts r
        in drawRows opts padLength ln (i + 1) rs
             (acc @ [UpdateOutput i (if int (index r) = ln then styled Inverse string
                                      else string)]))"

definition statusText :: "options \<Rightarrow> state \<Rightarrow> string" where
  "statusText opts s =
     (if count s = 0 then ''No result''
      else if count s = 1 then ''1 result''
      else toString (count s) @ '' results'') @
     (if truthy (opt_search opts) then
        (if length (found s) < count s
         then '' (loaded '' @ toString (length (found s)) @ '' yet)''
         else '' (all loaded)'')
      else [])"

text \<open>\<open>updateList\<close> up to its last statement: the status line and the rows.\<close>

definition render :: "options \<Rightarrow> state \<Rightarrow> result" where
  "render opts s =
     (let s1 = updateStatus (Some (statusText opts s)) (Some False) s;
          results = slice (found s1) (start s1) (start s1 + opt_size opts);
          padLength = length (toString (count s1))
      in case drawRows opts padLength (line s1) 0 results [] of
           Inl (e, rows) \<Rightarrow> Inl (e, s1\<lparr>drafts := drafts s1 @ rows\<rparr>)
         | Inr rows \<Rightarrow>
             Inr (s1\<lparr>drafts := drafts s1 @ rows @
                       map (\<lambda>i. UpdateOutput i []) [length results ..< nat (opt_size opts)]\<rparr>))"

text \<open>The condition of the last statement of \<open>updateList\<close>.\<close>

definition lastVisible :: "options \<Rightarrow> state \<Rightarrow> bool" where
  "lastVisible opts s =
     (truthy (opt_search opts) \<and> start s + opt_size opts \<ge> int (length (found s))
      \<and> morePages s)"

subsection \<open>Pagination\<close>

definition restore :: "cached \<Rightarrow> state \<Rightarrow> state" where
  "restore c s =
     (case c of (lp, f, n, m) \<Rightarrow>
        s\<lparr>loadedPages := lp, found := f, count := n, morePages := m\<rparr>)"

text \<open>\<open>loadNextPage\<close> from \<open>updateStatus(null, true)\<close> on: the page is asked for.\<close>

definition requestPage :: "state \<Rightarrow> state" where
  "requestPage s =
     (let s1 = updateStatus None (Some True) s;
          page = loadedPages s1 + 1;
          t = terms s1
      in if ident t \<in> loadingNextPage s1 then s1
         else s1\<lparr>loadingNextPage := insert (ident t) (loadingNextPage s1),
                 searches := searches s1 @
                   [\<lparr>f_terms = ident t, f_query = join (terms s1), f_page = page\<rparr>]\<rparr>)"

text \<open>
  \<open>loadNextPage\<close> and \<open>updateList\<close> call each other. The recursion is written with
  the body of \<open>updateList\<close> in place; \<open>updateList\<close> follows, and
  \<open>loadNextPage_updateList\<close> gives \<open>loadNextPage\<close> the shape of the source.
  Not returning is the value \<open>None\<close>.
\<close>

partial_function (option) loadNextPage :: "options \<Rightarrow> state \<Rightarrow> result option" where
  "loadNextPage opts s =
     (let query = join (terms s) in
      if loadedPages s = 0 \<and> cachedResults s query \<noteq> None then
        (case render opts (restore (the (cachedResults s query)) s) of
           Inl t \<Rightarrow> Some (Inl t)
         | Inr s' \<Rightarrow> if lastVisible opts s' then loadNextPage opts s' else Some (Inr s'))
      else Some (Inr (requestPage s)))"

definition updateList :: "options \<Rightarrow> state \<Rightarrow> result option" where
  "updateList opts s =
     (case render opts s of
        Inl t \<Rightarrow> Some (Inl t)
      | Inr s' \<Rightarrow> if lastVisible opts s' then loadNextPage opts s' else Some (Inr s'))"

subsection \<open>Ending the session\<close>

text \<open>
  \<open>end\<close> detaches the input listeners and settles the promise; a promise that is
  already settled ignores \<open>resolve\<close> and \<open>reject\<close>.
\<close>

definition end_fn :: "error option \<Rightarrow> item option \<Rightarrow> state \<Rightarrow> state" where
  "end_fn err res s =
     s\<lparr>listeners := False,
       settled := (case settled s of
                     Some v \<Rightarrow> Some v
                   | None \<Rightarrow> Some (case err of Some e \<Rightarrow> Rejected e
                                                  | None \<Rightarrow> Resolved res))\<rparr>"

text \<open>The \<open>.catch((e) => end(e))\<close> that closes both promise chains.\<close>

definition catch_end :: "result option \<Rightarrow> state option" where
  "catch_end r =
     (case r of
        None \<Rightarrow> None
      | Some (Inl (e, s)) \<Rightarrow> Some (end_fn (Some e) None s)
      | Some (Inr s) \<Rightarrow> Some s)"

subsection \<open>Filtering\<close>

text \<open>
  \<open>fuzzy\<close> is the module \<open>./fuzzy\<close>, which the functions below take as a parameter.
\<close>

type_synonym fuzzy = "item list \<Rightarrow> string list \<Rightarrow> item list"

definition filter_fn :: "options \<Rightarrow> fuzzy \<Rightarrow> fuzzy" where
  "filter_fn opts fuzzy =
     (if truthy (opt_data opts) \<or> fuzzyOnSearch opts then fuzzy else (\<lambda>items ts. items))"

definition filterDataset :: "options \<Rightarrow> fuzzy \<Rightarrow> state \<Rightarrow> result option" where
  "filterDataset opts fuzzy s =
     (let s1 = s\<lparr>line := 0, start := 0\<rparr> in
      if truthy (opt_data opts) \<and> dataset s1 \<noteq> None then
        (let fnd = filter_fn opts fuzzy (the (dataset s1)) (elems (terms s1))
         in updateList opts (s1\<lparr>found := fnd, count := length fnd\<rparr>))
      else if truthy (opt_search opts) then
        loadNextPage opts (s1\<lparr>loadedPages := 0, found := []\<rparr>)
      else Some (Inr s1))"

text \<open>\<open>checkDataset\<close>; \<open>None\<close> is a value that is not an array.\<close>

definition checkDataset :: "item list option \<Rightarrow> error + item list" where
  "checkDataset items =
     (case items of
        None \<Rightarrow> Inl InvalidDataset
      | Some xs \<Rightarrow> Inr (filter (\<lambda>i. label i \<noteq> []) xs))"

text \<open>The promise chain that loads the dataset, run when \<open>data\<close> resolves.\<close>

definition datasetLoaded :: "options \<Rightarrow> fuzzy \<Rightarrow> item list option \<Rightarrow> state \<Rightarrow> state option" where
  "datasetLoaded opts fuzzy items s =
     (case checkDataset items of
        Inl e \<Rightarrow> Some (end_fn (Some e) None s)
      | Inr xs \<Rightarrow> catch_end (filterDataset opts fuzzy (s\<lparr>dataset := Some xs\<rparr>)))"

subsection \<open>A page arrives\<close>

text \<open>
  The \<open>then\<close> handler of \<open>loadNextPage\<close>. The record \<open>fetch\<close> holds what the handler
  closes over: \<open>_terms\<close>, \<open>query\<close> and \<open>page\<close>.
\<close>

definition added_items :: "nat \<Rightarrow> item list \<Rightarrow> item list" where
  "added_items n xs = map (\<lambda>(x, i). x\<lparr>index := n + i\<rparr>) (zip xs [0 ..< length xs])"

definition accept :: "options \<Rightarrow> fetch \<Rightarrow> response \<Rightarrow> state \<Rightarrow> state" where
  "accept opts f r s =
     (let s2 = s\<lparr>found := found s @ added_items (length (found s)) (data r),
                 count := total_n r,
                 loadedPages := f_page f,
                 morePages := more_flag r\<rparr>
      in if cache opts
         then s2\<lparr>cachedResults := (cachedResults s2)
                   (f_query f \<mapsto> (loadedPages s2, found s2, count s2, morePages s2))\<rparr>
         else s2)"

definition complete :: "options \<Rightarrow> fetch \<Rightarrow> response \<Rightarrow> state \<Rightarrow> state option" where
  "complete opts f r s =
     (let s1 = s\<lparr>loadingNextPage := loadingNextPage s - {f_terms f}\<rparr> in
      if f_terms f \<noteq> ident (terms s1) then Some s1
      else catch_end (updateList opts (accept opts f r s1)))"

text \<open>
  The search collaborator's promise rejects: \<open>.catch(end)\<close> calls \<open>end\<close> with the
  reason, which is an error, or a falsy value (\<open>None\<close>), which \<open>end\<close> takes for no error.
\<close>

definition failed :: "error option \<Rightarrow> state \<Rightarrow> state" where
  "failed reason s = end_fn reason None s"

subsection \<open>Input events\<close>

text \<open>
  \<open>debounce\<close> is \<open>lodash.debounce\<close> with its default options: each call replaces the
  pending timer by one that is due \<open>debounceDelay\<close> after the call. \<open>timer\<close> holds the
  time at which the pending call is due, \<open>now\<close> is the time of the event.
\<close>

definition prettyChars :: "string list \<Rightarrow> nat \<Rightarrow> stext" where
  "prettyChars chars position =
     concat (map (\<lambda>(c, i). if position = i then styled Bold (styled Inverse (plain c))
                             else styled Bold (plain c))
                 (zip chars [0 ..< length chars]))
     @ (if position = length chars then styled Inverse (plain '' '') else [])"

definition onChangeInput :: "options \<Rightarrow> nat \<Rightarrow> array \<Rightarrow> nat \<Rightarrow> bool \<Rightarrow> state \<Rightarrow> state" where
  "onChangeInput opts now chars position modified s =
     (let s1 = s\<lparr>drafts := drafts s @ [UpdateInput (prettyChars (elems chars) position)]\<rparr>
      in if modified
         then s1\<lparr>terms := chars, timer := Some (now + debounceDelay opts)\<rparr>
         else s1)"

definition moveLine :: "options \<Rightarrow> int \<Rightarrow> int \<Rightarrow> state \<Rightarrow> state" where
  "moveLine opts dline dpage s =
     (let ln = max 0 (min (int (length (found s)) - 1)
                          (line s + dline + dpage * opt_size opts));
          s1 = s\<lparr>line := ln\<rparr>
      in if (dline < 0 \<or> dpage < 0) \<and> line s1 < start s1 then s1\<lparr>start := line s1\<rparr>
         else if (dline > 0 \<or> dpage > 0) \<and> line s1 \<ge> start s1 + opt_size opts
         then s1\<lparr>start := line s1 - opt_size opts + 1\<rparr>
         else s1)"

definition onChangeLine :: "options \<Rightarrow> int \<Rightarrow> int \<Rightarrow> state \<Rightarrow> result option" where
  "onChangeLine opts dline dpage s = updateList opts (moveLine opts dline dpage s)"

definition at_line :: "item list \<Rightarrow> int \<Rightarrow> item option" where
  "at_line xs i = (if 0 \<le> i \<and> i < int (length xs) then Some (xs ! nat i) else None)"

definition onSelect :: "state \<Rightarrow> state" where
  "onSelect s = end_fn None (at_line (found s) (line s)) s"

definition onEnd :: "state \<Rightarrow> state" where
  "onEnd s = end_fn None None s"

datatype event = Change array nat bool | Line int int | Select | End

text \<open>An emitter whose listeners were removed calls nothing.\<close>

definition emit :: "options \<Rightarrow> nat \<Rightarrow> event \<Rightarrow> state \<Rightarrow> result option" where
  "emit opts now ev s =
     (if \<not> listeners s then Some (Inr s)
      else case ev of
             Change chars position modified \<Rightarrow>
               Some (Inr (onChangeInput opts now chars position modified s))
           | Line dline dpage \<Rightarrow> onChangeLine opts dline dpage s
           | Select \<Rightarrow> Some (Inr (onSelect s))
           | End \<Rightarrow> Some (Inr (onEnd s)))"

subsection \<open>Construction\<close>

definition initial :: state where
  "initial =
     \<lparr>found = [], count = 0, terms = \<lparr>ident = 0, elems = []\<rparr>, line = 0, start = 0,
      dataset = None, loadedPages = 0, morePages = False, loadingNextPage = {},
      cachedResults = Map.empty, message_var = [], loading_var = False, drafts = [],
      searches = [], timer = None, stdin_raw = False, listeners = False, settled = None\<rparr>"

text \<open>
  The executor of the promise, and after it the microtask of the search mode
  (\<open>Promise.resolve().then(() => loadNextPage())\<close>). In the data mode the dataset
  arrives later, through \<open>datasetLoaded\<close>. An exception that leaves the executor rejects
  the promise. Two calls of the executor can throw: \<open>" ".repeat(size)\<close>, which makes the
  draft lines of the rows, throws a \<open>RangeError\<close> for a negative \<open>size\<close> and for one
  beyond the longest string; \<open>stdin.setRawMode(true)\<close> throws a \<open>TypeError\<close> when
  \<open>stdin\<close> is not a TTY stream, after the prompt was written.
\<close>

definition construct :: "options \<Rightarrow> state option" where
  "construct opts =
     (if \<not> truthy (opt_data opts) \<and> \<not> truthy (opt_search opts)
      then Some (initial\<lparr>settled := Some (Rejected RequiredOption)\<rparr>)
      else if truthy (opt_search opts) \<and> typeof (opt_search opts) \<noteq> ''function''
      then Some (initial\<lparr>settled :=
                   Some (Rejected (SearchNotFunction (typeof (opt_search opts))))\<rparr>)
      else if opt_size opts < 0 \<or> int (maxStringLength opts) < opt_size opts
      then Some (initial\<lparr>settled := Some (Rejected RangeError)\<rparr>)
      else
        let s1 = initial\<lparr>drafts := [UpdateInput (styled Dim (plain ''Enter your search''))]\<rparr>
        in if \<not> stdin_isTTY opts then Some (s1\<lparr>settled := Some (Rejected TypeError)\<rparr>)
           else
             let s2 = s1\<lparr>stdin_raw := True\<rparr>;
                 s3 = (if truthy (opt_data opts) then updateStatus None (Some True) s2 else s2);
                 s4 = s3\<lparr>listeners := True\<rparr>
             in if truthy (opt_data opts) then Some s4
                else map_option st (loadNextPage opts s4))"

subsection \<open>Time\<close>




subsection \<open>Sessions\<close>

text \<open>
  The states of a session: the one the constructor leaves, and from there every state
  that a callback leaves: an input event, the debounce timer, a page of a fetch that was
  started, a rejection of the search collaborator or an error of \<open>stdin\<close>, the dataset.
  The state in which a callback throws counts as well, and a fetch may be answered more
  than once: the set is not smaller than what a session can reach.
\<close>

inductive reachable :: "options \<Rightarrow> fuzzy \<Rightarrow> state \<Rightarrow> bool" for opts :: options and fuzzy :: fuzzy
  where
    constructed: "construct opts = Some s \<Longrightarrow> reachable opts fuzzy s"
  | input: "reachable opts fuzzy s \<Longrightarrow> emit opts now ev s = Some r
            \<Longrightarrow> reachable opts fuzzy (st r)"
  | timeout: "reachable opts fuzzy s \<Longrightarrow> timer s \<noteq> None
            \<Longrightarrow> filterDataset opts fuzzy (s\<lparr>timer := None\<rparr>) = Some r
            \<Longrightarrow> reachable opts fuzzy (st r)"
  | page: "reachable opts fuzzy s \<Longrightarrow> f \<in> set (searches s) \<Longrightarrow> complete opts f r s = Some s'
            \<Longrightarrow> reachable opts fuzzy s'"
  | rejected: "reachable opts fuzzy s \<Longrightarrow> reachable opts fuzzy (failed reason s)"
  | loaded: "reachable opts fuzzy s \<Longrightarrow> truthy (opt_data opts)
            \<Longrightarrow> datasetLoaded opts fuzzy items s = Some s'
            \<Longrightarrow> reachable opts fuzzy s'"

section \<open>Auxiliary notions\<close>

text \<open>A state that differs from another one by draft lines only.\<close>

definition redrawn :: "state \<Rightarrow> state \<Rightarrow> bool" where
  "redrawn s s' =
     (\<exists>m l d. s' = s\<lparr>message_var := m, loading_var := l, drafts := drafts s @ d\<rparr>)"

text \<open>
  The cache entry of the current query, if there is one, holds at least one page. The
  \<open>then\<close> handler stores \<open>loadedPages\<close> right after setting it to \<open>page\<close>, which is
  \<open>loadedPages + 1\<close>, so the code stores no other entry.
\<close>

definition cached_page_ok :: "state \<Rightarrow> bool" where
  "cached_page_ok s =
     (case cachedResults s (join (terms s)) of None \<Rightarrow> True | Some c \<Rightarrow> 0 < fst c)"

text \<open>The call \<open>search(terms.join(""), loadedPages + 1)\<close> made from a state.\<close>

definition next_fetch :: "state \<Rightarrow> fetch" where
  "next_fetch s = \<lparr>f_terms = ident (terms s), f_query = join (terms s), f_page = loadedPages s + 1\<rparr>"

text \<open>What \<open>loadNextPage\<close> and \<open>updateList\<close> never assign.\<close>

definition steady :: "state \<Rightarrow> state \<Rightarrow> bool" where
  "steady s s' =
     (terms s' = terms s \<and> line s' = line s \<and> start s' = start s
      \<and> cachedResults s' = cachedResults s \<and> dataset s' = dataset s \<and> timer s' = timer s
      \<and> stdin_raw s' = stdin_raw s)"

text \<open>The result set is the same.\<close>

definition results_kept :: "state \<Rightarrow> state \<Rightarrow> bool" where
  "results_kept s s' =
     (found s' = found s \<and> count s' = count s \<and> loadedPages s' = loadedPages s
      \<and> morePages s' = morePages s)"

text \<open>The ranks of a result set are \<open>0, 1, ...\<close> in the order of display.\<close>

definition dense :: "item list \<Rightarrow> bool" where
  "dense xs = (map index xs = [0 ..< length xs])"





text \<open>Every cache entry holds a loaded page, and every fetch asks for a page from 1 on.\<close>

definition pages_pos :: "state \<Rightarrow> bool" where
  "pages_pos s =
     ((\<forall>q c. cachedResults s q = Some c \<longrightarrow> 0 < fst c)
      \<and> (\<forall>f \<in> set (searches s). 0 < f_page f))"

text \<open>The ranks are dense in \<open>found\<close> and in every cache entry.\<close>

definition all_dense :: "state \<Rightarrow> bool" where
  "all_dense s =
     (dense (found s) \<and> (\<forall>q c. cachedResults s q = Some c \<longrightarrow> dense (fst (snd c))))"

text \<open>What the trace is followed by: the fields that decide the next step.\<close>

definition at_state ::
  "state \<Rightarrow> item list \<Rightarrow> nat \<Rightarrow> nat \<Rightarrow> bool \<Rightarrow> nat \<Rightarrow> string list \<Rightarrow> int \<Rightarrow> int
     \<Rightarrow> item list option \<Rightarrow> bool" where
  "at_state s fnd n lp m i cs ln sta ds =
     (found s = fnd \<and> count s = n \<and> loadedPages s = lp \<and> morePages s = m
      \<and> terms s = \<lparr>ident = i, elems = cs\<rparr> \<and> line s = ln \<and> start s = sta
      \<and> dataset s = ds \<and> listeners s)"

section \<open>Concrete sessions and values\<close>

text \<open>Options and values for the concrete runs.\<close>

definition search_opts :: options where
  "search_opts =
     \<lparr>opt_size = 10, opt_data = Undefined, opt_search = Function, fuzzyOnSearch = False,
      debounceDelay = 300, cache = True, stdin_isTTY = True, maxStringLength = 2 ^ 29 - 24\<rparr>"

definition apple :: item where
  "apple = \<lparr>label = ''apple'', highlight = [], index = 0\<rparr>"

definition page_a :: response where
  "page_a = \<lparr>data = [apple], total_n = 1, more_flag = False\<rparr>"

definition fetch_a :: fetch where
  "fetch_a = \<lparr>f_terms = 1, f_query = ''a'', f_page = 1\<rparr>"

definition typed_ab :: state where
  "typed_ab = initial\<lparr>terms := \<lparr>ident = 2, elems = [''a'', ''b'']\<rparr>,
                      loadingNextPage := {1}\<rparr>"

definition in_flight_ab :: state where
  "in_flight_ab = typed_ab\<lparr>loadingNextPage := {2}\<rparr>"

definition row :: "nat \<Rightarrow> item" where
  "row i = \<lparr>label = ''row'', highlight = [], index = i\<rparr>"

definition five :: "item list" where
  "five = [row 0, row 1, row 2, row 3, row 4]"

text \<open>
  The query \<open>a\<close> typed again after its first page (five items of twelve, more to come)
  was stored, at the moment \<open>filterDataset\<close> has reset \<open>loadedPages\<close> and \<open>found\<close>.
\<close>

definition reentered_a :: state where
  "reentered_a =
     initial\<lparr>terms := \<lparr>ident = 3, elems = [''a'']\<rparr>,
             cachedResults := [''a'' \<mapsto> (1, five, 12, True)],
             stdin_raw := True, listeners := True\<rparr>"

text \<open>A page of the query \<open>a\<close> for the terms object in \<open>reentered_a\<close>.\<close>

definition fetch_a3 :: fetch where
  "fetch_a3 = \<lparr>f_terms = 3, f_query = ''a'', f_page = 1\<rparr>"

text \<open>The first page of the query \<open>a\<close> on display, and the same with nothing more to load.\<close>

definition loaded_a :: state where
  "loaded_a = restore (1, five, 12, True) reentered_a"

definition all_loaded_a :: state where
  "all_loaded_a = restore (1, five, 5, False) reentered_a"

text \<open>Options that the two guards of the constructor refuse, and options in data mode.\<close>

definition no_opts :: options where
  "no_opts = search_opts\<lparr>opt_search := Undefined\<rparr>"

definition bad_search_opts :: options where
  "bad_search_opts = search_opts\<lparr>opt_search := String ''grep''\<rparr>"

definition data_opts :: options where
  "data_opts = search_opts\<lparr>opt_data := Object, opt_search := Undefined\<rparr>"

text \<open>
  Options that the guards let through: a dataset with \<open>search: false\<close>; a search function
  with \<open>size: -1\<close>, and with a \<open>size\<close> of \<open>2^31\<close>; a search function with a \<open>stdin\<close>
  that is not a TTY stream.
\<close>

definition falsy_search_opts :: options where
  "falsy_search_opts = search_opts\<lparr>opt_data := Object, opt_search := Boolean False\<rparr>"

definition negative_size_opts :: options where
  "negative_size_opts = search_opts\<lparr>opt_size := - 1\<rparr>"

definition huge_size_opts :: options where
  "huge_size_opts = search_opts\<lparr>opt_size := 2 ^ 31\<rparr>"

definition piped_opts :: options where
  "piped_opts = search_opts\<lparr>stdin_isTTY := False\<rparr>"

text \<open>A \<open>fuzzy\<close> that keeps every item, ranked in the order of the dataset.\<close>

definition keep_all :: fuzzy where
  "keep_all items ts = added_items 0 items"



text \<open>A session in search mode right after the constructor: the first page is awaited.\<close>

definition started :: state where
  "started =
     requestPage (initial\<lparr>drafts := [UpdateInput (styled Dim (plain ''Enter your search''))],
                         stdin_raw := True, listeners := True\<rparr>)"

definition fetch_first :: fetch where
  "fetch_first = \<lparr>f_terms = 0, f_query = [], f_page = 1\<rparr>"

text \<open>The first page of the query arrives in \<open>started\<close>: five rows of twelve.\<close>

definition page_five :: response where
  "page_five = \<lparr>data = five, total_n = 12, more_flag = True\<rparr>"

definition shown_five :: state where
  "shown_five = the (complete search_opts fetch_first page_five started)"

text \<open>
  The fetch of the second page, which the display of the first one started, and a page of
  two items as the search collaborator sends them, with no rank of their own.
\<close>

definition fetch_second :: fetch where
  "fetch_second = \<lparr>f_terms = 0, f_query = [], f_page = 2\<rparr>"

definition page_next :: response where
  "page_next = \<lparr>data = [apple, apple], total_n = 12, more_flag = True\<rparr>"

text \<open>The fetch of the first page of the query \<open>b\<close>, for the terms object in \<open>mixed5\<close>.\<close>

definition fetch_b :: fetch where
  "fetch_b = \<lparr>f_terms = 2, f_query = ''b'', f_page = 1\<rparr>"

text \<open>
  A session with both \<open>data\<close> and \<open>search\<close>, which the constructor accepts. The query
  \<open>a\<close> is typed and its first page arrives (\<open>mixed3\<close>); the query \<open>b\<close> is typed and
  asked for (\<open>mixed5\<close>); the dataset of sixteen rows arrives (\<open>mixed6\<close>); the query \<open>a\<close>
  is typed again and filtered from the dataset (\<open>mixed8\<close>); the cursor goes down by
  fifteen rows, to the last one, where the display update restores the cached page of
  five rows (\<open>mixed9\<close>).
\<close>

definition mixed_opts :: options where
  "mixed_opts = search_opts\<lparr>opt_data := Object\<rparr>"

definition sixteen :: "item list" where
  "sixteen = map row [0 ..< 16]"

definition mixed0 :: state where
  "mixed0 =
     (updateStatus None (Some True)
        (initial\<lparr>drafts := [UpdateInput (styled Dim (plain ''Enter your search''))],
                 stdin_raw := True\<rparr>))\<lparr>listeners := True\<rparr>"

definition mixed1 :: state where
  "mixed1 = onChangeInput mixed_opts 0 \<lparr>ident = 1, elems = [''a'']\<rparr> 1 True mixed0"

definition mixed2 :: state where
  "mixed2 = st (the (filterDataset mixed_opts keep_all (mixed1\<lparr>timer := None\<rparr>)))"

definition mixed3 :: state where
  "mixed3 = the (complete mixed_opts fetch_a page_five mixed2)"

definition mixed4 :: state where
  "mixed4 = onChangeInput mixed_opts 1000 \<lparr>ident = 2, elems = [''b'']\<rparr> 1 True mixed3"

definition mixed5 :: state where
  "mixed5 = st (the (filterDataset mixed_opts keep_all (mixed4\<lparr>timer := None\<rparr>)))"

definition mixed6 :: state where
  "mixed6 = the (datasetLoaded mixed_opts keep_all (Some sixteen) mixed5)"

definition mixed7 :: state where
  "mixed7 = onChangeInput mixed_opts 2000 \<lparr>ident = 3, elems = [''a'']\<rparr> 1 True mixed6"

definition mixed8 :: state where
  "mixed8 = st (the (filterDataset mixed_opts keep_all (mixed7\<lparr>timer := None\<rparr>)))"

definition mixed9 :: state where
  "mixed9 = st (the (emit mixed_opts 3000 (Line 15 0) mixed8))"

text \<open>
  A session in search mode in which a query is typed again. The first page of the empty
  query has arrived (\<open>shown_five\<close>) and its second page is awaited; \<open>b\<close> is typed
  (\<open>retyped1\<close>) and asked for (\<open>retyped2\<close>); the \<open>b\<close> is deleted (\<open>retyped3\<close>). When the
  debounce timer then runs \<open>filterDataset\<close>, \<open>loadNextPage\<close> is called on \<open>reentry\<close>.
\<close>

definition retyped1 :: state where
  "retyped1 = onChangeInput search_opts 1000 \<lparr>ident = 4, elems = [''b'']\<rparr> 1 True shown_five"

definition retyped2 :: state where
  "retyped2 = st (the (filterDataset search_opts keep_all (retyped1\<lparr>timer := None\<rparr>)))"

definition retyped3 :: state where
  "retyped3 = onChangeInput search_opts 2000 \<lparr>ident = 6, elems = []\<rparr> 0 True retyped2"

definition reentry :: state where
  "reentry = retyped3\<lparr>timer := None, line := 0, start := 0, loadedPages := 0, found := []\<rparr>"

section \<open>Lemmas on the display and on pagination\<close>

lemma loadNextPage_updateList:
  "loadNextPage opts s =
     (let query = join (terms s) in
      if loadedPages s = 0 \<and> cachedResults s query \<noteq> None
      then updateList opts (restore (the (cachedResults s query)) s)
      else Some (Inr (requestPage s)))"
  by (subst loadNextPage.simps) (simp add: updateList_def Let_def)

lemma updateStatus_redrawn: "redrawn s (updateStatus m l s)"
  unfolding redrawn_def updateStatus_def Let_def by blast

lemma redrawn_drafts:
  assumes "redrawn s s1"
  shows "redrawn s (s1\<lparr>drafts := drafts s1 @ d\<rparr>)"
proof -
  from assms obtain m l d0
    where "s1 = s\<lparr>message_var := m, loading_var := l, drafts := drafts s @ d0\<rparr>"
    unfolding redrawn_def by blast
  then have "s1\<lparr>drafts := drafts s1 @ d\<rparr>
             = s\<lparr>message_var := m, loading_var := l, drafts := drafts s @ (d0 @ d)\<rparr>"
    by simp
  then show ?thesis unfolding redrawn_def by blast
qed

lemma render_redrawn: "redrawn s (st (render opts s))"
proof -
  let ?s1 = "updateStatus (Some (statusText opts s)) (Some False) s"
  let ?rows = "drawRows opts (length (toString (count ?s1))) (line ?s1) 0
                 (slice (found ?s1) (start ?s1) (start ?s1 + opt_size opts)) []"
  have r: "redrawn s ?s1" by (rule updateStatus_redrawn)
  show ?thesis
  proof (cases ?rows)
    case (Inl p)
    then show ?thesis
      using redrawn_drafts[OF r] by (cases p) (simp add: render_def Let_def)
  next
    case (Inr rows)
    then show ?thesis
      using redrawn_drafts[OF r] by (simp add: render_def Let_def)
  qed
qed

lemma redrawn_fields:
  assumes "redrawn s s'"
  shows "found s' = found s" "count s' = count s" "terms s' = terms s" "line s' = line s"
    "start s' = start s" "dataset s' = dataset s" "loadedPages s' = loadedPages s"
    "morePages s' = morePages s" "loadingNextPage s' = loadingNextPage s"
    "cachedResults s' = cachedResults s" "searches s' = searches s" "timer s' = timer s"
    "stdin_raw s' = stdin_raw s" "listeners s' = listeners s" "settled s' = settled s"
  using assms unfolding redrawn_def by auto

lemma lastVisible_redrawn: "redrawn s s' \<Longrightarrow> lastVisible opts s' = lastVisible opts s"
  by (simp add: lastVisible_def redrawn_fields)

lemma loadNextPage_miss:
  "\<not> (loadedPages s = 0 \<and> cachedResults s (join (terms s)) \<noteq> None)
   \<Longrightarrow> loadNextPage opts s = Some (Inr (requestPage s))"
  by (subst loadNextPage.simps) (auto simp add: Let_def)

lemma loadNextPage_hit:
  assumes "loadedPages s = 0" "cachedResults s (join (terms s)) = Some c" "0 < fst c"
  shows "loadNextPage opts s =
          (case render opts (restore c s) of
             Inl t \<Rightarrow> Some (Inl t)
           | Inr s' \<Rightarrow> if lastVisible opts s' then Some (Inr (requestPage s'))
                        else Some (Inr s'))"
proof -
  have lp: "loadedPages (restore c s) \<noteq> 0"
    using assms(3) by (cases c) (simp add: restore_def)
  have "loadNextPage opts s' = Some (Inr (requestPage s'))"
    if "render opts (restore c s) = Inr s'" for s'
  proof -
    have "redrawn (restore c s) s'"
      using render_redrawn[of "restore c s" opts] that by simp
    then have "loadedPages s' \<noteq> 0" using lp by (simp add: redrawn_fields)
    then show ?thesis by (simp add: loadNextPage_miss)
  qed
  then show ?thesis
    using assms(1,2)
    by (cases c) (subst loadNextPage.simps, auto simp add: Let_def split: sum.splits)
qed

lemma requestPage_in_flight:
  "ident (terms s) \<in> loadingNextPage s \<Longrightarrow> redrawn s (requestPage s)"
  using updateStatus_redrawn[of s None "Some True"]
  by (simp add: requestPage_def Let_def redrawn_fields)

lemma requestPage_asks:
  assumes "ident (terms s) \<notin> loadingNextPage s"
  shows "\<exists>s1. redrawn s s1 \<and>
           requestPage s = s1\<lparr>loadingNextPage := insert (ident (terms s)) (loadingNextPage s),
                                 searches := searches s @ [next_fetch s]\<rparr>"
  using updateStatus_redrawn[of s None "Some True"] assms
  by (auto simp add: requestPage_def Let_def redrawn_fields next_fetch_def)

lemma requestPage_fields:
  "found (requestPage s) = found s" "count (requestPage s) = count s"
  "terms (requestPage s) = terms s" "line (requestPage s) = line s"
  "start (requestPage s) = start s" "loadedPages (requestPage s) = loadedPages s"
  "morePages (requestPage s) = morePages s" "cachedResults (requestPage s) = cachedResults s"
  "listeners (requestPage s) = listeners s" "settled (requestPage s) = settled s"
  "timer (requestPage s) = timer s" "dataset (requestPage s) = dataset s"
  using updateStatus_redrawn[of s None "Some True"]
  by (simp_all add: requestPage_def Let_def redrawn_fields)

lemma requestPage_searches:
  "searches (requestPage s) =
     (if ident (terms s) \<in> loadingNextPage s then searches s else searches s @ [next_fetch s])"
  using updateStatus_redrawn[of s None "Some True"]
  by (simp add: requestPage_def Let_def redrawn_fields next_fetch_def)

lemma requestPage_loading:
  "loadingNextPage (requestPage s) = insert (ident (terms s)) (loadingNextPage s)"
  using updateStatus_redrawn[of s None "Some True"]
  by (auto simp add: requestPage_def Let_def redrawn_fields)

lemma restore_fields:
  "terms (restore c s) = terms s" "line (restore c s) = line s" "start (restore c s) = start s"
  "cachedResults (restore c s) = cachedResults s" "searches (restore c s) = searches s"
  "loadingNextPage (restore c s) = loadingNextPage s" "listeners (restore c s) = listeners s"
  "settled (restore c s) = settled s" "timer (restore c s) = timer s"
  "dataset (restore c s) = dataset s"
  "loadedPages (restore c s) = fst c" "found (restore c s) = fst (snd c)"
  "count (restore c s) = fst (snd (snd c))" "morePages (restore c s) = snd (snd (snd c))"
  by (cases c; simp add: restore_def)+


lemma loadNextPage_hit':
  assumes "cached_page_ok s" "loadedPages s = 0" "cachedResults s (join (terms s)) = Some c"
  shows "loadNextPage opts s =
          (case render opts (restore c s) of
             Inl t \<Rightarrow> Some (Inl t)
           | Inr s' \<Rightarrow> if lastVisible opts s' then Some (Inr (requestPage s'))
                        else Some (Inr s'))"
    and "0 < fst c"
  using assms by (simp_all add: loadNextPage_hit cached_page_ok_def)

lemma redrawn_next_fetch:
  "redrawn s s' \<Longrightarrow> next_fetch s' = next_fetch s"
  by (simp add: next_fetch_def redrawn_fields)

lemma steady_refl: "steady s s"
  by (simp add: steady_def)

lemma steady_trans: "steady s s1 \<Longrightarrow> steady s1 s2 \<Longrightarrow> steady s s2"
  by (simp add: steady_def)

lemma results_kept_refl: "results_kept s s"
  by (simp add: results_kept_def)

lemma results_kept_trans: "results_kept s s1 \<Longrightarrow> results_kept s1 s2 \<Longrightarrow> results_kept s s2"
  by (simp add: results_kept_def)

lemma redrawn_steady: "redrawn s s' \<Longrightarrow> steady s s'"
  by (simp add: steady_def redrawn_fields)

lemma redrawn_results_kept: "redrawn s s' \<Longrightarrow> results_kept s s'"
  by (simp add: results_kept_def redrawn_fields)

lemma requestPage_steady: "steady s (requestPage s)"
  by (simp add: steady_def requestPage_fields)
    (use updateStatus_redrawn[of s None "Some True"] in
      \<open>simp add: requestPage_def Let_def redrawn_fields\<close>)

lemma requestPage_results_kept: "results_kept s (requestPage s)"
  by (simp add: results_kept_def requestPage_fields)

lemma restore_steady: "steady s (restore c s)"
  by (cases c) (simp add: steady_def restore_def)

lemma end_fn_steady: "steady s (end_fn e r s)"
  by (simp add: steady_def end_fn_def)

lemma end_fn_results_kept: "results_kept s (end_fn e r s)"
  by (simp add: results_kept_def end_fn_def)

lemma end_fn_fields:
  "drafts (end_fn e r s) = drafts s" "searches (end_fn e r s) = searches s"
  "loadingNextPage (end_fn e r s) = loadingNextPage s" "listeners (end_fn e r s) = False"
  "found (end_fn e r s) = found s" "count (end_fn e r s) = count s"
  "loadedPages (end_fn e r s) = loadedPages s" "morePages (end_fn e r s) = morePages s"
  "terms (end_fn e r s) = terms s" "cachedResults (end_fn e r s) = cachedResults s"
  "line (end_fn e r s) = line s" "start (end_fn e r s) = start s"
  by (simp_all add: end_fn_def)

text \<open>Once a page is loaded, \<open>updateList\<close> cannot reach the cache branch.\<close>

lemma updateList_loaded:
  assumes "0 < loadedPages s"
  shows "updateList opts s =
          (case render opts s of
             Inl t \<Rightarrow> Some (Inl t)
           | Inr s' \<Rightarrow> if lastVisible opts s' then Some (Inr (requestPage s'))
                        else Some (Inr s'))"
proof -
  have "loadNextPage opts s' = Some (Inr (requestPage s'))" if "render opts s = Inr s'" for s'
  proof -
    have "redrawn s s'" using render_redrawn[of s opts] that by simp
    then have "loadedPages s' \<noteq> 0" using assms by (simp add: redrawn_fields)
    then show ?thesis by (simp add: loadNextPage_miss)
  qed
  then show ?thesis by (simp add: updateList_def split: sum.splits)
qed

lemma render_draws:
  "\<exists>x d. drafts (st (render opts s)) = drafts s @ UpdateStatus x # d"
proof -
  let ?s1 = "updateStatus (Some (statusText opts s)) (Some False) s"
  let ?rows = "drawRows opts (length (toString (count ?s1))) (line ?s1) 0
                 (slice (found ?s1) (start ?s1) (start ?s1 + opt_size opts)) []"
  have d: "\<exists>x. drafts ?s1 = drafts s @ [UpdateStatus x]"
    by (simp add: updateStatus_def Let_def)
  show ?thesis
  proof (cases ?rows)
    case (Inl p)
    then show ?thesis using d by (cases p) (auto simp add: render_def Let_def)
  next
    case (Inr rows)
    then show ?thesis using d by (auto simp add: render_def Let_def)
  qed
qed

lemma requestPage_drafts: "\<exists>d. drafts (requestPage s) = drafts s @ d"
  by (simp add: requestPage_def updateStatus_def Let_def)

lemma updateList_loaded_frame:
  assumes "0 < loadedPages s"
  shows "\<exists>r x d. updateList opts s = Some r \<and> steady s (st r) \<and> results_kept s (st r)
           \<and> drafts (st r) = drafts s @ UpdateStatus x # d"
proof -
  note eq = updateList_loaded[OF assms, of opts]
  have rd: "redrawn s (st (render opts s))" by (rule render_redrawn)
  obtain x d where dr: "drafts (st (render opts s)) = drafts s @ UpdateStatus x # d"
    using render_draws by blast
  show ?thesis
  proof (cases "render opts s")
    case (Inl t)
    then show ?thesis using eq rd dr by (auto simp add: redrawn_steady redrawn_results_kept)
  next
    case (Inr s')
    with rd dr have rd': "redrawn s s'" and dr': "drafts s' = drafts s @ UpdateStatus x # d"
      by simp_all
    show ?thesis
    proof (cases "lastVisible opts s'")
      case False
      then show ?thesis using eq Inr rd' dr'
        by (auto simp add: redrawn_steady redrawn_results_kept)
    next
      case True
      obtain d' where "drafts (requestPage s') = drafts s' @ d'"
        using requestPage_drafts by blast
      then have "drafts (requestPage s') = drafts s @ UpdateStatus x # (d @ d')"
        using dr' by simp
      moreover have "steady s (requestPage s')"
        using redrawn_steady[OF rd'] requestPage_steady by (rule steady_trans)
      moreover have "results_kept s (requestPage s')"
        using redrawn_results_kept[OF rd'] requestPage_results_kept
        by (rule results_kept_trans)
      ultimately show ?thesis using eq Inr True by auto
    qed
  qed
qed

text \<open>An accepted page: what \<open>complete\<close> leaves behind.\<close>

lemma accept_fields:
  "found (accept opts f r s) = found s @ added_items (length (found s)) (data r)"
  "count (accept opts f r s) = total_n r"
  "loadedPages (accept opts f r s) = f_page f"
  "morePages (accept opts f r s) = more_flag r"
  "terms (accept opts f r s) = terms s" "line (accept opts f r s) = line s"
  "start (accept opts f r s) = start s" "drafts (accept opts f r s) = drafts s"
  "searches (accept opts f r s) = searches s"
  "loadingNextPage (accept opts f r s) = loadingNextPage s"
  "cachedResults (accept opts f r s) =
     (if cache opts
      then (cachedResults s)(f_query f \<mapsto>
             (f_page f, found s @ added_items (length (found s)) (data r), total_n r,
              more_flag r))
      else cachedResults s)"
  by (simp_all add: accept_def Let_def)

lemma complete_accepted:
  assumes "f_terms f = ident (terms s)" "0 < f_page f"
  shows "\<exists>s' x d. complete opts f r s = Some s'
           \<and> found s' = found s @ added_items (length (found s)) (data r)
           \<and> count s' = total_n r \<and> loadedPages s' = f_page f \<and> morePages s' = more_flag r
           \<and> terms s' = terms s \<and> line s' = line s \<and> start s' = start s
           \<and> cachedResults s' =
               (if cache opts
                then (cachedResults s)(f_query f \<mapsto>
                       (f_page f, found s @ added_items (length (found s)) (data r),
                        total_n r, more_flag r))
                else cachedResults s)
           \<and> drafts s' = drafts s @ UpdateStatus x # d"
proof -
  let ?s1 = "s\<lparr>loadingNextPage := loadingNextPage s - {f_terms f}\<rparr>"
  let ?a = "accept opts f r ?s1"
  have "0 < loadedPages ?a" using assms(2) by (simp add: accept_fields)
  from updateList_loaded_frame[OF this, of opts]
  obtain res x d where u: "updateList opts ?a = Some res" and s: "steady ?a (st res)"
    and k: "results_kept ?a (st res)" and dr: "drafts (st res) = drafts ?a @ UpdateStatus x # d"
    by blast
  have c: "complete opts f r s = catch_end (Some res)"
    using assms(1) u by (simp add: complete_def Let_def)
  show ?thesis
  proof (cases res)
    case (Inl t)
    obtain e s2 where t: "t = (e, s2)" by (cases t)
    have "complete opts f r s = Some (end_fn (Some e) None s2)"
      using c Inl t by (simp add: catch_end_def)
    then show ?thesis using s k dr Inl t
      by (simp add: end_fn_fields steady_def results_kept_def accept_fields)
  next
    case (Inr s2)
    have "complete opts f r s = Some s2" using c Inr by (simp add: catch_end_def)
    then show ?thesis using s k dr Inr
      by (simp add: steady_def results_kept_def accept_fields)
  qed
qed

lemma length_toString_mono: "n \<le> m \<Longrightarrow> length (toString n) \<le> length (toString m)"
proof (induction m arbitrary: n rule: toString.induct)
  case (1 m)
  show ?case
  proof (cases "m < 10")
    case True
    with "1.prems" have "n < 10" by simp
    with True show ?thesis by (simp add: toString.simps[of n] toString.simps[of m])
  next
    case False
    show ?thesis
    proof (cases "n < 10")
      case True
      with False show ?thesis by (simp add: toString.simps[of n] toString.simps[of m])
    next
      case nb: False
      have "n div 10 \<le> m div 10" using "1.prems" by (rule div_le_mono)
      with "1.IH"[OF False] have "length (toString (n div 10)) \<le> length (toString (m div 10))"
        by simp
      with False nb show ?thesis by (simp add: toString.simps[of n] toString.simps[of m])
    qed
  qed
qed

lemma drawRows_fit:
  "(\<forall>r \<in> set rs. length (toString (index r + 1)) \<le> p)
   \<Longrightarrow> \<exists>rows. drawRows opts p ln i rs acc = Inr rows"
  by (induction rs arbitrary: i acc) (simp_all add: Let_def)

lemma set_slice: "set (slice xs a b) \<subseteq> set xs"
  unfolding slice_def Let_def by (meson set_take_subset set_drop_subset subset_trans)

text \<open>The rows are drawn when no loaded item has a rank beyond \<open>count\<close>.\<close>

lemma render_fit:
  assumes "\<forall>r \<in> set (found s). index r < count s"
  shows "\<exists>s'. render opts s = Inr s'"
proof -
  let ?s1 = "updateStatus (Some (statusText opts s)) (Some False) s"
  let ?rs = "slice (found ?s1) (start ?s1) (start ?s1 + opt_size opts)"
  have f: "found ?s1 = found s" "count ?s1 = count s"
    using updateStatus_redrawn[of s "Some (statusText opts s)" "Some False"]
    by (simp_all add: redrawn_fields)
  have "\<forall>r \<in> set ?rs. length (toString (index r + 1)) \<le> length (toString (count ?s1))"
  proof
    fix r assume "r \<in> set ?rs"
    then have "r \<in> set (found s)" using set_slice f(1) by fastforce
    with assms have "index r + 1 \<le> count s" by fastforce
    then show "length (toString (index r + 1)) \<le> length (toString (count ?s1))"
      using f(2) by (simp add: length_toString_mono)
  qed
  from drawRows_fit[OF this] obtain rows
    where "drawRows opts (length (toString (count ?s1))) (line ?s1) 0 ?rs [] = Inr rows"
    by blast
  then show ?thesis by (simp add: render_def Let_def)
qed

text \<open>The cache branch of \<open>loadNextPage\<close>, with the call it may end in.\<close>

lemma loadNextPage_restores:
  assumes "loadedPages s = 0" "cachedResults s (join (terms s)) = Some c" "0 < fst c"
  shows "\<exists>r. loadNextPage opts s = Some r \<and> results_kept (restore c s) (st r)
           \<and> steady s (st r)
           \<and> searches (st r) =
               (if (\<exists>s'. render opts (restore c s) = Inr s') \<and> lastVisible opts (restore c s)
                   \<and> ident (terms s) \<notin> loadingNextPage s
                then searches s @ [next_fetch (restore c s)] else searches s)"
proof -
  let ?b = "restore c s"
  note eq = loadNextPage_hit[OF assms, of opts]
  have rd: "redrawn ?b (st (render opts ?b))" by (rule render_redrawn)
  have sb: "steady s ?b" by (rule restore_steady)
  show ?thesis
  proof (cases "render opts ?b")
    case (Inl t)
    then have "loadNextPage opts s = Some (Inl t)" using eq by simp
    moreover have "redrawn ?b (st (Inl t))" using rd Inl by simp
    ultimately show ?thesis using Inl sb
      by (auto simp add: redrawn_results_kept redrawn_fields restore_fields
          intro: steady_trans redrawn_steady)
  next
    case (Inr s')
    with rd have rd': "redrawn ?b s'" by simp
    have lv: "lastVisible opts s' = lastVisible opts ?b" using rd' by (rule lastVisible_redrawn)
    show ?thesis
    proof (cases "lastVisible opts ?b")
      case False
      then have "loadNextPage opts s = Some (Inr s')" using eq Inr lv by simp
      then show ?thesis using rd' False sb
        by (auto simp add: redrawn_results_kept redrawn_fields restore_fields
            intro: steady_trans redrawn_steady)
    next
      case True
      then have 1: "loadNextPage opts s = Some (Inr (requestPage s'))" using eq Inr lv by simp
      have "results_kept ?b (requestPage s')"
        using redrawn_results_kept[OF rd'] requestPage_results_kept
        by (rule results_kept_trans)
      moreover have "steady s (requestPage s')"
        using sb redrawn_steady[OF rd'] requestPage_steady by (blast intro: steady_trans)
      moreover have "searches (requestPage s') =
               (if ident (terms s) \<notin> loadingNextPage s
                then searches s @ [next_fetch ?b] else searches s)"
        using rd' by (simp add: requestPage_searches redrawn_next_fetch redrawn_fields
            restore_fields)
      ultimately show ?thesis using 1 Inr True by simp
    qed
  qed
qed

lemma function_truthy: "typeof v = ''function'' \<Longrightarrow> truthy v"
  by (cases v) simp_all

lemma construct_search:
  assumes "\<not> truthy (opt_data opts)" "typeof (opt_search opts) = ''function''"
    and "0 \<le> opt_size opts" "opt_size opts \<le> int (maxStringLength opts)" "stdin_isTTY opts"
  shows "\<exists>s. construct opts = Some s \<and> settled s = None \<and> stdin_raw s \<and> listeners s"
proof -
  let ?s4 = "initial\<lparr>drafts := [UpdateInput (styled Dim (plain ''Enter your search''))],
                     stdin_raw := True, listeners := True\<rparr>"
  have t: "truthy (opt_search opts)" using assms(2) by (rule function_truthy)
  have "loadNextPage opts ?s4 = Some (Inr (requestPage ?s4))"
    by (rule loadNextPage_miss) (simp add: initial_def)
  then have "construct opts = Some (requestPage ?s4)"
    using assms t by (simp add: construct_def Let_def)
  moreover have "settled (requestPage ?s4) = None"
    by (simp add: requestPage_fields) (simp add: initial_def)
  moreover have "redrawn ?s4 (updateStatus None (Some True) ?s4)"
    by (rule updateStatus_redrawn)
  then have "stdin_raw (requestPage ?s4) \<and> listeners (requestPage ?s4)"
    by (simp add: requestPage_def Let_def redrawn_fields)
  ultimately show ?thesis by blast
qed

lemma cached_page_ok_cong:
  "terms s' = terms s \<Longrightarrow> cachedResults s' = cachedResults s
   \<Longrightarrow> cached_page_ok s' = cached_page_ok s"
  by (simp add: cached_page_ok_def)

lemma loadNextPage_steady:
  assumes "cached_page_ok s"
  shows "\<exists>r. loadNextPage opts s = Some r \<and> steady s (st r)"
proof (cases "loadedPages s = 0 \<and> cachedResults s (join (terms s)) \<noteq> None")
  case False
  then have "loadNextPage opts s = Some (Inr (requestPage s))" by (rule loadNextPage_miss)
  then show ?thesis using requestPage_steady by simp
next
  case True
  then obtain c where c: "cachedResults s (join (terms s)) = Some c" by blast
  with assms have "0 < fst c" by (simp add: cached_page_ok_def)
  from loadNextPage_restores[OF conjunct1[OF True] c this, of opts]
  show ?thesis by blast
qed

lemma updateList_steady:
  assumes "cached_page_ok s"
  shows "\<exists>r. updateList opts s = Some r \<and> steady s (st r)"
proof (cases "render opts s")
  case (Inl t)
  then have "updateList opts s = Some (Inl t)" by (simp add: updateList_def)
  moreover have "steady s (st (Inl t))"
    using render_redrawn[of s opts] Inl by (simp add: redrawn_steady del: st.simps)
  ultimately show ?thesis by blast
next
  case (Inr s')
  then have rd: "redrawn s s'" using render_redrawn[of s opts] by simp
  show ?thesis
  proof (cases "lastVisible opts s'")
    case False
    then have "updateList opts s = Some (Inr s')" using Inr by (simp add: updateList_def)
    then show ?thesis using redrawn_steady[OF rd] by simp
  next
    case True
    have "cached_page_ok s'"
      using assms rd by (simp add: cached_page_ok_cong[of s' s] redrawn_fields)
    from loadNextPage_steady[OF this, of opts]
    obtain r where "loadNextPage opts s' = Some r" "steady s' (st r)" by blast
    moreover have "updateList opts s = loadNextPage opts s'"
      using Inr True by (simp add: updateList_def)
    ultimately show ?thesis using redrawn_steady[OF rd] by (auto intro: steady_trans)
  qed
qed

lemma moveLine_fields:
  "terms (moveLine opts dl dp s) = terms s"
  "cachedResults (moveLine opts dl dp s) = cachedResults s"
  "found (moveLine opts dl dp s) = found s"
  "loadedPages (moveLine opts dl dp s) = loadedPages s"
  "line (moveLine opts dl dp s)
     = max 0 (min (int (length (found s)) - 1) (line s + dl + dp * opt_size opts))"
  by (simp_all add: moveLine_def Let_def)

lemma moveLine_start:
  "start (moveLine opts dl dp s) =
     (if (dl < 0 \<or> dp < 0) \<and> line (moveLine opts dl dp s) < start s
      then line (moveLine opts dl dp s)
      else if (dl > 0 \<or> dp > 0)
              \<and> line (moveLine opts dl dp s) \<ge> start s + opt_size opts
      then line (moveLine opts dl dp s) - opt_size opts + 1
      else start s)"
proof -
  define ln where "ln = max 0 (min (int (length (found s)) - 1)
                          (line s + dl + dp * opt_size opts))"
  have m: "moveLine opts dl dp s =
     (if (dl < 0 \<or> dp < 0) \<and> ln < start s then s\<lparr>line := ln, start := ln\<rparr>
      else if (dl > 0 \<or> dp > 0) \<and> ln \<ge> start s + opt_size opts
      then s\<lparr>line := ln, start := ln - opt_size opts + 1\<rparr>
      else s\<lparr>line := ln\<rparr>)"
    unfolding moveLine_def Let_def ln_def[symmetric] by simp
  show ?thesis unfolding m by simp
qed

lemma moveLine_viewport:
  assumes "0 \<le> start s" "start s \<le> line s" "line s < start s + opt_size opts"
    and "line s < int (length (found s)) \<or> (found s = [] \<and> line s = 0)"
  shows "0 \<le> start (moveLine opts dl dp s)
       \<and> start (moveLine opts dl dp s) \<le> line (moveLine opts dl dp s)
       \<and> line (moveLine opts dl dp s) < start (moveLine opts dl dp s) + opt_size opts"
proof -
  define z where "z = opt_size opts"
  define n where "n = int (length (found s))"
  define t where "t = line s + dl + dp * z"
  define ln where "ln = max 0 (min (n - 1) t)"
  have z: "0 \<le> z" using assms(2,3) by (simp add: z_def)
  have v: "line s < n \<or> (n = 0 \<and> line s = 0)" using assms(4) by (auto simp add: n_def)
  have L: "line (moveLine opts dl dp s) = ln"
    by (simp add: moveLine_fields ln_def t_def n_def z_def)
  have S: "start (moveLine opts dl dp s) =
     (if (dl < 0 \<or> dp < 0) \<and> ln < start s then ln
      else if (dl > 0 \<or> dp > 0) \<and> ln \<ge> start s + z then ln - z + 1
      else start s)"
    unfolding moveLine_start L z_def ..
  have stay: "t \<le> line s" if "\<not> (dl > 0 \<or> dp > 0)"
  proof -
    from that have "dl \<le> 0" "dp \<le> 0" by auto
    then have "dp * z \<le> 0" using z by (simp add: mult_nonpos_nonneg)
    with \<open>dl \<le> 0\<close> show ?thesis by (simp add: t_def)
  qed
  have rise: "line s \<le> t" if "\<not> (dl < 0 \<or> dp < 0)"
  proof -
    from that have "0 \<le> dl" "0 \<le> dp" by auto
    then have "0 \<le> dp * z" using z by simp
    with \<open>0 \<le> dl\<close> show ?thesis by (simp add: t_def)
  qed
  have ln0: "0 \<le> ln" by (simp add: ln_def)
  have lo: "start s \<le> ln" if "\<not> (dl < 0 \<or> dp < 0)"
    using rise[OF that] v assms(1,2) by (auto simp add: ln_def max_def min_def)
  have hi: "ln < start s + z" if "\<not> (dl > 0 \<or> dp > 0)"
    using stay[OF that] assms(1-3) by (auto simp add: ln_def max_def min_def z_def)
  have z1: "1 \<le> z" using assms(2,3) by (simp add: z_def)
  show ?thesis
    unfolding L S z_def[symmetric]
    using ln0 lo hi z1 assms(1) by (auto simp add: not_less not_le)
qed

lemma onChangeInput_fields:
  "listeners (onChangeInput opts now chars position modified s) = listeners s"
  "found (onChangeInput opts now chars position modified s) = found s"
  "count (onChangeInput opts now chars position modified s) = count s"
  "loadedPages (onChangeInput opts now chars position modified s) = loadedPages s"
  "morePages (onChangeInput opts now chars position modified s) = morePages s"
  "line (onChangeInput opts now chars position modified s) = line s"
  "start (onChangeInput opts now chars position modified s) = start s"
  "searches (onChangeInput opts now chars position modified s) = searches s"
  "cachedResults (onChangeInput opts now chars position modified s) = cachedResults s"
  "settled (onChangeInput opts now chars position modified s) = settled s"
  "drafts (onChangeInput opts now chars position modified s)
     = drafts s @ [UpdateInput (prettyChars (elems chars) position)]"
  "terms (onChangeInput opts now chars position modified s)
     = (if modified then chars else terms s)"
  "timer (onChangeInput opts now chars position modified s)
     = (if modified then Some (now + debounceDelay opts) else timer s)"
  by (simp_all add: onChangeInput_def Let_def)






lemma pages_pos_cached: "pages_pos s \<Longrightarrow> cachedResults s q = Some c \<Longrightarrow> 0 < fst c"
  unfolding pages_pos_def by blast

lemma all_dense_cached: "all_dense s \<Longrightarrow> cachedResults s q = Some c \<Longrightarrow> dense (fst (snd c))"
  unfolding all_dense_def by blast

lemma pages_pos_cached_page_ok: "pages_pos s \<Longrightarrow> cached_page_ok s"
  by (auto simp add: pages_pos_def cached_page_ok_def split: option.splits)

lemma pages_pos_step:
  assumes "pages_pos s" "cachedResults s' = cachedResults s"
    and "searches s' = searches s \<or> (\<exists>f. searches s' = searches s @ [f] \<and> 0 < f_page f)"
  shows "pages_pos s'"
  using assms by (auto simp add: pages_pos_def)

lemma all_dense_step:
  assumes "all_dense s" "cachedResults s' = cachedResults s" "found s' = found s"
  shows "all_dense s'"
  using assms by (simp add: all_dense_def)

lemma requestPage_inv:
  "pages_pos s \<Longrightarrow> pages_pos (requestPage s)"
  "all_dense s \<Longrightarrow> all_dense (requestPage s)"
proof -
  have "searches (requestPage s) = searches s
        \<or> (\<exists>f. searches (requestPage s) = searches s @ [f] \<and> 0 < f_page f)"
    by (simp add: requestPage_searches next_fetch_def)
  then show "pages_pos s \<Longrightarrow> pages_pos (requestPage s)"
    by (rule pages_pos_step[rotated 2]) (simp_all add: requestPage_fields)
  show "all_dense s \<Longrightarrow> all_dense (requestPage s)"
    by (rule all_dense_step) (simp_all add: requestPage_fields)
qed

lemma redrawn_inv:
  assumes "redrawn s s'"
  shows "pages_pos s \<Longrightarrow> pages_pos s'" "all_dense s \<Longrightarrow> all_dense s'"
  using assms by (simp_all add: pages_pos_def all_dense_def redrawn_fields)

lemma loadNextPage_inv:
  assumes "pages_pos s"
  shows "\<exists>r. loadNextPage opts s = Some r \<and> pages_pos (st r)
           \<and> (all_dense s \<longrightarrow> all_dense (st r))"
proof (cases "loadedPages s = 0 \<and> cachedResults s (join (terms s)) \<noteq> None")
  case False
  then have "loadNextPage opts s = Some (Inr (requestPage s))" by (rule loadNextPage_miss)
  then show ?thesis using assms requestPage_inv by simp
next
  case True
  then obtain c where c: "cachedResults s (join (terms s)) = Some c" by blast
  with assms have pos: "0 < fst c" by (rule pages_pos_cached)
  from loadNextPage_restores[OF conjunct1[OF True] c pos, of opts]
  obtain r where r: "loadNextPage opts s = Some r"
    and k: "results_kept (restore c s) (st r)" and sd: "steady s (st r)"
    and se: "searches (st r) =
               (if (\<exists>s'. render opts (restore c s) = Inr s') \<and> lastVisible opts (restore c s)
                   \<and> ident (terms s) \<notin> loadingNextPage s
                then searches s @ [next_fetch (restore c s)] else searches s)"
    by blast
  have cr: "cachedResults (st r) = cachedResults s" using sd by (simp add: steady_def)
  have "searches (st r) = searches s
        \<or> (\<exists>f. searches (st r) = searches s @ [f] \<and> 0 < f_page f)"
    using se by (auto simp add: next_fetch_def)
  with assms cr have "pages_pos (st r)" by (rule pages_pos_step)
  moreover have "all_dense (st r)" if "all_dense s"
  proof -
    have "found (st r) = fst (snd c)" using k by (simp add: results_kept_def restore_fields)
    moreover have "dense (fst (snd c))" using that c by (rule all_dense_cached)
    ultimately show ?thesis using that cr by (simp add: all_dense_def)
  qed
  ultimately show ?thesis using r by blast
qed

lemma updateList_inv:
  assumes "pages_pos s"
  shows "\<exists>r. updateList opts s = Some r \<and> pages_pos (st r)
           \<and> (all_dense s \<longrightarrow> all_dense (st r))"
proof (cases "render opts s")
  case (Inl t)
  then have "updateList opts s = Some (Inl t)" by (simp add: updateList_def)
  moreover have "redrawn s (st (Inl t))"
    using render_redrawn[of s opts] Inl by (simp del: st.simps)
  ultimately show ?thesis using assms redrawn_inv by blast
next
  case (Inr s')
  then have rd: "redrawn s s'" using render_redrawn[of s opts] by simp
  show ?thesis
  proof (cases "lastVisible opts s'")
    case False
    then have "updateList opts s = Some (Inr s')" using Inr by (simp add: updateList_def)
    then show ?thesis using assms redrawn_inv[OF rd] by simp
  next
    case True
    then have "updateList opts s = loadNextPage opts s'" using Inr by (simp add: updateList_def)
    moreover have "pages_pos s'" using assms rd by (rule redrawn_inv(1)[rotated])
    ultimately show ?thesis
      using loadNextPage_inv[of s' opts] redrawn_inv(2)[OF rd] by auto
  qed
qed

lemma end_fn_inv:
  "pages_pos s \<Longrightarrow> pages_pos (end_fn e r s)" "all_dense s \<Longrightarrow> all_dense (end_fn e r s)"
  by (simp_all add: pages_pos_def all_dense_def end_fn_fields)

lemma catch_end_inv:
  assumes "x = Some r" "pages_pos (st r)"
  shows "\<exists>s'. catch_end x = Some s' \<and> pages_pos s'
           \<and> (all_dense (st r) \<longrightarrow> all_dense s')"
proof (cases r)
  case (Inl t)
  obtain e s2 where "t = (e, s2)" by (cases t)
  then show ?thesis using assms Inl end_fn_inv by (simp add: catch_end_def)
next
  case (Inr s2)
  then show ?thesis using assms by (simp add: catch_end_def)
qed

lemma filterDataset_inv:
  assumes "pages_pos s"
  shows "\<exists>r. filterDataset opts fuzzy s = Some r \<and> pages_pos (st r)
           \<and> ((truthy (opt_data opts) \<longrightarrow> (\<forall>ds ts. dense (fuzzy ds ts))) \<and> all_dense s
                \<longrightarrow> all_dense (st r))"
proof -
  let ?s1 = "s\<lparr>line := 0, start := 0\<rparr>"
  show ?thesis
  proof (cases "truthy (opt_data opts) \<and> dataset ?s1 \<noteq> None")
    case True
    let ?fnd = "filter_fn opts fuzzy (the (dataset ?s1)) (elems (terms ?s1))"
    let ?s2 = "?s1\<lparr>found := ?fnd, count := length ?fnd\<rparr>"
    have "pages_pos ?s2" using assms by (simp add: pages_pos_def)
    from updateList_inv[OF this, of opts]
    obtain r where r: "updateList opts ?s2 = Some r" "pages_pos (st r)"
      "all_dense ?s2 \<longrightarrow> all_dense (st r)" by blast
    have "all_dense ?s2" if "\<forall>ds ts. dense (fuzzy ds ts)" "all_dense s"
      using that True by (simp add: all_dense_def filter_fn_def)
    moreover have "filterDataset opts fuzzy s = updateList opts ?s2"
      using True by (simp add: filterDataset_def Let_def)
    ultimately show ?thesis using True r by auto
  next
    case False
    show ?thesis
    proof (cases "truthy (opt_search opts)")
      case search: True
      let ?s2 = "?s1\<lparr>loadedPages := 0, found := []\<rparr>"
      have "pages_pos ?s2" using assms by (simp add: pages_pos_def)
      moreover have "all_dense s \<Longrightarrow> all_dense ?s2" by (simp add: all_dense_def dense_def)
      moreover have "filterDataset opts fuzzy s = loadNextPage opts ?s2"
        using False search by (auto simp add: filterDataset_def Let_def)
      ultimately show ?thesis using loadNextPage_inv[of ?s2 opts] by auto
    next
      case nosearch: False
      then have "filterDataset opts fuzzy s = Some (Inr ?s1)"
        using False by (auto simp add: filterDataset_def Let_def)
      moreover have "pages_pos ?s1" using assms by (simp add: pages_pos_def)
      moreover have "all_dense s \<Longrightarrow> all_dense ?s1" by (simp add: all_dense_def)
      ultimately show ?thesis by auto
    qed
  qed
qed

lemma added_items_index:
  "map index (added_items n ys) = [n ..< n + length ys]"
  by (rule nth_equalityI) (simp_all add: added_items_def)

lemma dense_added:
  assumes "dense xs"
  shows "dense (xs @ added_items (length xs) ys)"
    and "map index (added_items (length xs) ys) = [length xs ..< length xs + length ys]"
proof -
  show ix: "map index (added_items (length xs) ys) = [length xs ..< length xs + length ys]"
    by (rule nth_equalityI) (simp_all add: added_items_def)
  have len: "length (added_items (length xs) ys) = length ys" by (simp add: added_items_def)
  have "map index (xs @ added_items (length xs) ys)
        = [0 ..< length xs] @ [length xs ..< length xs + length ys]"
    using assms by (simp add: dense_def ix)
  also have "\<dots> = [0 ..< length xs + length ys]"
    using upt_add_eq_append[of 0 "length xs" "length ys"] by simp
  finally show "dense (xs @ added_items (length xs) ys)" by (simp add: dense_def len)
qed

lemma accept_inv:
  assumes "pages_pos s" "0 < f_page f"
  shows "pages_pos (accept opts f r s)"
    and "all_dense s \<Longrightarrow> all_dense (accept opts f r s)"
proof -
  show "pages_pos (accept opts f r s)"
    using assms by (auto simp add: pages_pos_def accept_fields)
  show "all_dense (accept opts f r s)" if "all_dense s"
    using that dense_added(1)[of "found s" "data r"]
    by (auto simp add: all_dense_def accept_fields)
qed

lemma complete_inv:
  assumes "pages_pos s" "f \<in> set (searches s)"
  shows "\<exists>s'. complete opts f r s = Some s' \<and> pages_pos s'
           \<and> (all_dense s \<longrightarrow> all_dense s')"
proof -
  let ?s1 = "s\<lparr>loadingNextPage := loadingNextPage s - {f_terms f}\<rparr>"
  have p1: "pages_pos ?s1" using assms(1) by (simp add: pages_pos_def)
  have d1: "all_dense s \<Longrightarrow> all_dense ?s1" by (simp add: all_dense_def)
  have pg: "0 < f_page f" using assms by (simp add: pages_pos_def)
  show ?thesis
  proof (cases "f_terms f \<noteq> ident (terms s)")
    case True
    then have "complete opts f r s = Some ?s1" by (simp add: complete_def Let_def)
    then show ?thesis using p1 d1 by simp
  next
    case False
    let ?a = "accept opts f r ?s1"
    from updateList_inv[OF accept_inv(1)[OF p1 pg], of opts opts r]
    obtain x where x: "updateList opts ?a = Some x" "pages_pos (st x)"
      "all_dense ?a \<longrightarrow> all_dense (st x)" by blast
    have "complete opts f r s = catch_end (updateList opts ?a)"
      using False by (simp add: complete_def Let_def)
    with catch_end_inv[OF x(1,2)] x(3) accept_inv(2)[OF p1 pg, of opts r] d1
    show ?thesis by auto
  qed
qed

lemma emit_inv:
  assumes "pages_pos s"
  shows "\<exists>r. emit opts now ev s = Some r \<and> pages_pos (st r)
           \<and> (all_dense s \<longrightarrow> all_dense (st r))"
proof (cases "listeners s")
  case False
  then show ?thesis using assms by (simp add: emit_def)
next
  case True
  show ?thesis
  proof (cases ev)
    case (Change chars position modified)
    then show ?thesis using assms True
      by (simp add: emit_def pages_pos_def all_dense_def onChangeInput_fields)
  next
    case (Line dline dpage)
    let ?m = "moveLine opts dline dpage s"
    have "pages_pos ?m" using assms by (simp add: pages_pos_def moveLine_def Let_def)
    moreover have "all_dense s \<Longrightarrow> all_dense ?m"
      by (simp add: all_dense_def moveLine_fields)
    ultimately show ?thesis
      using updateList_inv[of ?m opts] True Line by (auto simp add: emit_def onChangeLine_def)
  next
    case Select
    then show ?thesis using assms True end_fn_inv by (simp add: emit_def onSelect_def)
  next
    case End
    then show ?thesis using assms True end_fn_inv by (simp add: emit_def onEnd_def)
  qed
qed

lemma construct_inv:
  "\<exists>s. construct opts = Some s \<and> pages_pos s \<and> all_dense s"
proof -
  have i: "pages_pos (initial\<lparr>settled := x\<rparr>)" "all_dense (initial\<lparr>settled := x\<rparr>)" for x
    by (simp_all add: pages_pos_def all_dense_def dense_def initial_def)
  let ?s2 = "initial\<lparr>drafts := [UpdateInput (styled Dim (plain ''Enter your search''))],
                     stdin_raw := True\<rparr>"
  have s2: "pages_pos ?s2" "all_dense ?s2"
    by (simp_all add: pages_pos_def all_dense_def dense_def initial_def)
  let ?s3 = "if truthy (opt_data opts) then updateStatus None (Some True) ?s2 else ?s2"
  have "redrawn ?s2 (updateStatus None (Some True) ?s2)" by (rule updateStatus_redrawn)
  then have s3: "pages_pos ?s3" "all_dense ?s3" using s2 redrawn_inv by auto
  let ?s4 = "?s3\<lparr>listeners := True\<rparr>"
  have s4: "pages_pos ?s4" "all_dense ?s4"
    using s3 by (simp_all add: pages_pos_def all_dense_def)
  from loadNextPage_inv[OF s4(1), of opts] s4(2)
  obtain r where r: "loadNextPage opts ?s4 = Some r" "pages_pos (st r)" "all_dense (st r)"
    by blast
  let ?s1 = "initial\<lparr>drafts := [UpdateInput (styled Dim (plain ''Enter your search''))]\<rparr>"
  have s1: "pages_pos (?s1\<lparr>settled := x\<rparr>)" "all_dense (?s1\<lparr>settled := x\<rparr>)" for x
    by (simp_all add: pages_pos_def all_dense_def dense_def initial_def)
  consider (none) "\<not> truthy (opt_data opts) \<and> \<not> truthy (opt_search opts)"
    | (bad) "truthy (opt_search opts) \<and> typeof (opt_search opts) \<noteq> ''function''"
    | (range) "\<not> (\<not> truthy (opt_data opts) \<and> \<not> truthy (opt_search opts))"
        "\<not> (truthy (opt_search opts) \<and> typeof (opt_search opts) \<noteq> ''function'')"
        "opt_size opts < 0 \<or> int (maxStringLength opts) < opt_size opts"
    | (notty) "\<not> (\<not> truthy (opt_data opts) \<and> \<not> truthy (opt_search opts))"
        "\<not> (truthy (opt_search opts) \<and> typeof (opt_search opts) \<noteq> ''function'')"
        "\<not> (opt_size opts < 0 \<or> int (maxStringLength opts) < opt_size opts)"
        "\<not> stdin_isTTY opts"
    | (ok) "\<not> (\<not> truthy (opt_data opts) \<and> \<not> truthy (opt_search opts))"
        "\<not> (truthy (opt_search opts) \<and> typeof (opt_search opts) \<noteq> ''function'')"
        "\<not> (opt_size opts < 0 \<or> int (maxStringLength opts) < opt_size opts)"
        "stdin_isTTY opts"
    by blast
  then show ?thesis
  proof cases
    case none
    then show ?thesis using i by (simp add: construct_def)
  next
    case bad
    then show ?thesis using i by (simp add: construct_def)
  next
    case range
    then have "construct opts = Some (initial\<lparr>settled := Some (Rejected RangeError)\<rparr>)"
      by (cases "truthy (opt_search opts)") (simp_all add: construct_def)
    then show ?thesis using i by simp
  next
    case notty
    then have "construct opts = Some (?s1\<lparr>settled := Some (Rejected TypeError)\<rparr>)"
      by (cases "truthy (opt_search opts)") (simp_all add: construct_def Let_def)
    then show ?thesis using s1 by simp
  next
    case ok
    show ?thesis
    proof (cases "truthy (opt_data opts)")
      case True
      then have "construct opts = Some ?s4"
        using ok by (cases "truthy (opt_search opts)") (simp_all add: construct_def Let_def)
      then show ?thesis using s4 by simp
    next
      case False
      then have "construct opts = map_option st (loadNextPage opts ?s4)"
        using ok by (cases "truthy (opt_search opts)") (simp_all add: construct_def Let_def)
      then show ?thesis using r by simp
    qed
  qed
qed

text \<open>In every state of a session the pages are numbered from 1 on.\<close>

lemma reachable_pages_pos: "reachable opts fuzzy s \<Longrightarrow> pages_pos s"
proof (induction rule: reachable.induct)
  case (constructed s)
  then show ?case using construct_inv[of opts] by auto
next
  case (input s now ev r)
  then show ?case using emit_inv[of s opts now ev] by auto
next
  case (timeout s r)
  have "pages_pos (s\<lparr>timer := None\<rparr>)" using timeout.IH by (simp add: pages_pos_def)
  from filterDataset_inv[OF this, of opts fuzzy] timeout.hyps show ?case by auto
next
  case (page s f r s')
  then show ?case using complete_inv[of s f opts r] by auto
next
  case (rejected s reason)
  then show ?case by (simp add: failed_def end_fn_inv)
next
  case (loaded s items s')
  show ?case
  proof (cases "checkDataset items")
    case (Inl e)
    then show ?thesis using loaded by (auto simp add: datasetLoaded_def end_fn_inv)
  next
    case (Inr xs)
    have "pages_pos (s\<lparr>dataset := Some xs\<rparr>)" using loaded.IH by (simp add: pages_pos_def)
    from filterDataset_inv[OF this, of opts fuzzy]
    obtain r where r: "filterDataset opts fuzzy (s\<lparr>dataset := Some xs\<rparr>) = Some r"
      "pages_pos (st r)" by blast
    from catch_end_inv[OF r] loaded.hyps Inr r(1) show ?thesis
      by (auto simp add: datasetLoaded_def)
  qed
qed

text \<open>
  The ranks are dense in every state of a session, when those of the lists that \<open>fuzzy\<close>
  returns are: \<open>main.js\<close> shows the ranks that a list filtered from the dataset comes
  with, and writes none there.
\<close>

lemma reachable_all_dense:
  "reachable opts fuzzy s \<Longrightarrow> truthy (opt_data opts) \<longrightarrow> (\<forall>ds ts. dense (fuzzy ds ts))
   \<Longrightarrow> all_dense s"
proof (induction rule: reachable.induct)
  case (constructed s)
  then show ?case using construct_inv[of opts] by auto
next
  case (input s now ev r)
  then show ?case using emit_inv[OF reachable_pages_pos, of opts fuzzy s opts now ev] by auto
next
  case (timeout s r)
  have "pages_pos (s\<lparr>timer := None\<rparr>)"
    using reachable_pages_pos[OF timeout.hyps(1)] by (simp add: pages_pos_def)
  moreover have "all_dense (s\<lparr>timer := None\<rparr>)" using timeout by (simp add: all_dense_def)
  ultimately show ?case
    using filterDataset_inv[of "s\<lparr>timer := None\<rparr>" opts fuzzy] timeout by auto
next
  case (page s f r s')
  then show ?case
    using complete_inv[OF reachable_pages_pos, of opts fuzzy s f opts r] by auto
next
  case (rejected s reason)
  then show ?case by (simp add: failed_def end_fn_inv)
next
  case (loaded s items s')
  show ?case
  proof (cases "checkDataset items")
    case (Inl e)
    then show ?thesis using loaded by (auto simp add: datasetLoaded_def end_fn_inv)
  next
    case (Inr xs)
    have "pages_pos (s\<lparr>dataset := Some xs\<rparr>)"
      using reachable_pages_pos[OF loaded.hyps(1)] by (simp add: pages_pos_def)
    moreover have "all_dense (s\<lparr>dataset := Some xs\<rparr>)"
      using loaded by (simp add: all_dense_def)
    ultimately obtain r where r: "filterDataset opts fuzzy (s\<lparr>dataset := Some xs\<rparr>) = Some r"
      "pages_pos (st r)" "all_dense (st r)"
      using filterDataset_inv[of "s\<lparr>dataset := Some xs\<rparr>" opts fuzzy] loaded.prems by blast
    from catch_end_inv[OF r(1,2)] loaded.hyps Inr r(1,3) show ?thesis
      by (auto simp add: datasetLoaded_def)
  qed
qed

lemma reachable_cached_page_ok: "reachable opts fuzzy s \<Longrightarrow> cached_page_ok s"
  by (rule pages_pos_cached_page_ok) (rule reachable_pages_pos)

lemma construct_started: "construct search_opts = Some started"
proof -
  let ?s4 = "initial\<lparr>drafts := [UpdateInput (styled Dim (plain ''Enter your search''))],
                     stdin_raw := True, listeners := True\<rparr>"
  have "loadNextPage search_opts ?s4 = Some (Inr (requestPage ?s4))"
    by (rule loadNextPage_miss) (simp add: initial_def)
  then show ?thesis by (simp add: construct_def search_opts_def Let_def started_def)
qed

lemma started_fields:
  "found started = []" "terms started = \<lparr>ident = 0, elems = []\<rparr>"
  "searches started = [fetch_first]" "loadingNextPage started = {0}"
  by (simp_all add: started_def requestPage_fields requestPage_searches requestPage_loading
      next_fetch_def fetch_first_def join_def)
     (simp_all add: initial_def)


lemma started_view:
  "line started = 0" "start started = 0" "listeners started" "timer started = None"
  by (simp_all add: started_def requestPage_fields)
     (simp_all add: initial_def requestPage_def updateStatus_def Let_def)

lemma added_five: "added_items 0 five = five"
  by (simp add: added_items_def five_def row_def upt_rec)

lemma shown_five:
  "reachable search_opts keep_all shown_five" "found shown_five = five"
  "line shown_five = 0" "start shown_five = 0"
proof -
  have "f_terms fetch_first = ident (terms started)" "0 < f_page fetch_first"
    by (simp_all add: started_fields) (simp_all add: fetch_first_def)
  from complete_accepted[OF this, of search_opts page_five]
  obtain s' where c: "complete search_opts fetch_first page_five started = Some s'"
    and f: "found s' = found started @ added_items (length (found started)) (data page_five)"
    and v: "line s' = line started" "start s' = start started"
    by blast
  have s': "shown_five = s'" by (simp add: shown_five_def c)
  have "reachable search_opts keep_all started"
    using construct_started by (rule reachable.constructed)
  moreover have "fetch_first \<in> set (searches started)" by (simp add: started_fields)
  ultimately show "reachable search_opts keep_all shown_five"
    using c unfolding s' by (rule reachable.page)
  show "found shown_five = five"
    unfolding s' f by (simp add: started_fields page_five_def added_five)
  show "line shown_five = 0" "start shown_five = 0"
    unfolding s' v by (simp_all add: started_view)
qed

lemma filterDataset_search_miss:
  assumes "truthy (opt_search opts)" "dataset s = None"
    and "cachedResults s (join (terms s)) = None"
  shows "filterDataset opts fuzzy s =
           Some (Inr (requestPage (s\<lparr>line := 0, start := 0, loadedPages := 0, found := []\<rparr>)))"
proof -
  let ?s2 = "s\<lparr>line := 0, start := 0, loadedPages := 0, found := []\<rparr>"
  have "loadNextPage opts ?s2 = Some (Inr (requestPage ?s2))"
    by (rule loadNextPage_miss) (simp add: assms(3))
  then show ?thesis using assms(1,2) by (simp add: filterDataset_def Let_def)
qed

lemma updateList_quiet:
  assumes "\<forall>r \<in> set (found s). index r < count s" "\<not> lastVisible opts s"
  shows "\<exists>s'. updateList opts s = Some (Inr s') \<and> redrawn s s'"
proof -
  from render_fit[OF assms(1), of opts] obtain s' where r: "render opts s = Inr s'" by blast
  then have rd: "redrawn s s'" using render_redrawn[of s opts] by simp
  then have "\<not> lastVisible opts s'" using assms(2) by (simp add: lastVisible_redrawn)
  then show ?thesis using r rd by (simp add: updateList_def)
qed

lemma filterDataset_data_quiet:
  assumes "truthy (opt_data opts)" "dataset s = Some ds"
    and "\<forall>r \<in> set (fuzzy ds (elems (terms s))). index r < length (fuzzy ds (elems (terms s)))"
    and "opt_size opts < int (length (fuzzy ds (elems (terms s))))"
  shows "\<exists>s'. filterDataset opts fuzzy s = Some (Inr s')
           \<and> redrawn (s\<lparr>line := 0, start := 0, found := fuzzy ds (elems (terms s)),
                         count := length (fuzzy ds (elems (terms s)))\<rparr>) s'"
proof -
  let ?fnd = "fuzzy ds (elems (terms s))"
  let ?s2 = "s\<lparr>line := 0, start := 0, found := ?fnd, count := length ?fnd\<rparr>"
  have "\<forall>r \<in> set (found ?s2). index r < count ?s2" using assms(3) by simp
  moreover have "\<not> lastVisible opts ?s2" using assms(4) by (simp add: lastVisible_def)
  ultimately obtain s' where "updateList opts ?s2 = Some (Inr s')" "redrawn ?s2 s'"
    using updateList_quiet by blast
  moreover have "filterDataset opts fuzzy s = updateList opts ?s2"
    using assms(1,2) by (simp add: filterDataset_def Let_def filter_fn_def)
  ultimately show ?thesis by auto
qed

lemma complete_accepted_drawn:
  assumes "f_terms f = ident (terms s)" "0 < f_page f"
    and "\<forall>x \<in> set (found s @ added_items (length (found s)) (data r)). index x < total_n r"
  shows "\<exists>s'. complete opts f r s = Some s'
           \<and> found s' = found s @ added_items (length (found s)) (data r)
           \<and> count s' = total_n r \<and> loadedPages s' = f_page f \<and> morePages s' = more_flag r
           \<and> terms s' = terms s \<and> line s' = line s \<and> start s' = start s
           \<and> dataset s' = dataset s \<and> listeners s' = listeners s
           \<and> cachedResults s' =
               (if cache opts
                then (cachedResults s)(f_query f \<mapsto>
                       (f_page f, found s @ added_items (length (found s)) (data r),
                        total_n r, more_flag r))
                else cachedResults s)
           \<and> searches s' =
               (if truthy (opt_search opts)
                   \<and> int (length (found s) + length (data r)) \<le> start s + opt_size opts
                   \<and> more_flag r
                then searches s @ [\<lparr>f_terms = ident (terms s), f_query = join (terms s),
                                     f_page = f_page f + 1\<rparr>]
                else searches s)"
proof -
  let ?s1 = "s\<lparr>loadingNextPage := loadingNextPage s - {f_terms f}\<rparr>"
  let ?a = "accept opts f r ?s1"
  have lp: "0 < loadedPages ?a" using assms(2) by (simp add: accept_fields)
  have "\<forall>x \<in> set (found ?a). index x < count ?a" using assms(3) by (simp add: accept_fields)
  from render_fit[OF this, of opts] obtain s2 where r: "render opts ?a = Inr s2" by blast
  then have rd: "redrawn ?a s2" using render_redrawn[of ?a opts] by simp
  have u: "updateList opts ?a = Some (Inr (if lastVisible opts s2 then requestPage s2 else s2))"
    using updateList_loaded[OF lp, of opts] r by simp
  let ?s' = "if lastVisible opts s2 then requestPage s2 else s2"
  have c: "complete opts f r s = Some ?s'"
    using assms(1) u by (simp add: complete_def Let_def catch_end_def)
  have "found ?s' = found ?a" "count ?s' = count ?a" "loadedPages ?s' = loadedPages ?a"
    "morePages ?s' = morePages ?a" "terms ?s' = terms ?a" "line ?s' = line ?a"
    "start ?s' = start ?a" "dataset ?s' = dataset ?a" "listeners ?s' = listeners ?a"
    "cachedResults ?s' = cachedResults ?a"
    using rd by (simp_all add: requestPage_fields redrawn_fields)
  moreover have "dataset ?a = dataset s" "listeners ?a = listeners s"
    by (simp_all add: accept_def Let_def)
  moreover have "searches ?s' =
               (if truthy (opt_search opts)
                   \<and> int (length (found s) + length (data r)) \<le> start s + opt_size opts
                   \<and> more_flag r
                then searches s @ [\<lparr>f_terms = ident (terms s), f_query = join (terms s),
                                     f_page = f_page f + 1\<rparr>]
                else searches s)"
  proof -
    have lv: "lastVisible opts s2
              = (truthy (opt_search opts)
                 \<and> int (length (found s) + length (data r)) \<le> start s + opt_size opts
                 \<and> more_flag r)"
      using rd by (simp add: lastVisible_redrawn)
        (simp add: lastVisible_def accept_fields added_items_def)
    have nf: "ident (terms s2) \<notin> loadingNextPage s2"
      using rd assms(1) by (simp add: redrawn_fields accept_fields)
    have nx: "next_fetch s2 = \<lparr>f_terms = ident (terms s), f_query = join (terms s),
                                f_page = f_page f + 1\<rparr>"
      using rd by (simp add: redrawn_next_fetch) (simp add: next_fetch_def accept_fields)
    show ?thesis
      using nf nx rd unfolding lv
      by (simp add: requestPage_searches redrawn_fields accept_fields)
  qed
  ultimately show ?thesis using c by (simp add: accept_fields)
qed

lemma complete_loading:
  assumes "f_terms f = ident (terms s)" "0 < f_page f"
  shows "\<exists>s'. complete opts f r s = Some s'
           \<and> loadingNextPage s' \<subseteq> insert (ident (terms s)) (loadingNextPage s)"
proof -
  let ?s1 = "s\<lparr>loadingNextPage := loadingNextPage s - {f_terms f}\<rparr>"
  let ?a = "accept opts f r ?s1"
  have lp: "0 < loadedPages ?a" using assms(2) by (simp add: accept_fields)
  have la: "loadingNextPage ?a \<subseteq> loadingNextPage s" "terms ?a = terms s"
    by (auto simp add: accept_fields)
  note u = updateList_loaded[OF lp, of opts]
  have rd: "redrawn ?a (st (render opts ?a))" by (rule render_redrawn)
  have c: "complete opts f r s = catch_end (updateList opts ?a)"
    using assms(1) by (simp add: complete_def Let_def)
  show ?thesis
  proof (cases "render opts ?a")
    case (Inl t)
    obtain e s2 where t: "t = (e, s2)" by (cases t)
    then have "complete opts f r s = Some (end_fn (Some e) None s2)"
      using c u Inl by (simp add: catch_end_def)
    moreover have "loadingNextPage s2 = loadingNextPage ?a"
      using rd Inl t by (simp add: redrawn_fields)
    ultimately show ?thesis using la by (auto simp add: end_fn_fields)
  next
    case (Inr s2)
    then have rd2: "redrawn ?a s2" using rd by simp
    have "complete opts f r s = Some (if lastVisible opts s2 then requestPage s2 else s2)"
      using c u Inr by (simp add: catch_end_def)
    moreover have "loadingNextPage (if lastVisible opts s2 then requestPage s2 else s2)
                   \<subseteq> insert (ident (terms s)) (loadingNextPage s)"
      using rd2 la by (auto simp add: requestPage_loading redrawn_fields)
    ultimately show ?thesis by blast
  qed
qed

lemma sixteen_rows:
  "length sixteen = 16" "\<forall>r \<in> set sixteen. index r < 16" "filter (\<lambda>i. label i \<noteq> []) sixteen = sixteen"
  by (auto simp add: sixteen_def row_def)

lemma five_rows: "length five = 5" "\<forall>r \<in> set five. index r < 12"
  by (simp_all add: five_def row_def)

lemma mixed_opts_fields:
  "truthy (opt_data mixed_opts)" "truthy (opt_search mixed_opts)" "opt_size mixed_opts = 10"
  "cache mixed_opts" "typeof (opt_search mixed_opts) = ''function''"
  "stdin_isTTY mixed_opts" "maxStringLength mixed_opts = 2 ^ 29 - 24"
  by (simp_all add: mixed_opts_def search_opts_def)

lemma keep_all_dense: "dense (keep_all ds ts)"
  using dense_added(1)[of "[]" ds] by (simp add: keep_all_def dense_def)

lemma keep_all_sixteen: "keep_all sixteen cs = sixteen"
  unfolding keep_all_def
  by (rule nth_equalityI) (simp_all add: added_items_def sixteen_def row_def)

lemma onChangeInput_at:
  assumes "at_state s fnd n lp m i cs ln sta ds"
  shows "at_state (onChangeInput opts now \<lparr>ident = j, elems = cs'\<rparr> position True s)
           fnd n lp m j cs' ln sta ds"
    and "emit opts now (Change \<lparr>ident = j, elems = cs'\<rparr> position True) s
           = Some (Inr (onChangeInput opts now \<lparr>ident = j, elems = cs'\<rparr> position True s))"
    and "timer (onChangeInput opts now \<lparr>ident = j, elems = cs'\<rparr> position True s) \<noteq> None"
    and "cachedResults (onChangeInput opts now \<lparr>ident = j, elems = cs'\<rparr> position True s)
           = cachedResults s"
  using assms by (simp_all add: at_state_def onChangeInput_def Let_def emit_def)

lemma mixed0:
  "construct mixed_opts = Some mixed0" "at_state mixed0 [] 0 0 False 0 [] 0 0 None"
  "cachedResults mixed0 = Map.empty" "loadingNextPage mixed0 = {}" "searches mixed0 = []"
proof -
  show "construct mixed_opts = Some mixed0"
    by (simp add: construct_def mixed_opts_fields Let_def mixed0_def)
  let ?s2 = "initial\<lparr>drafts := [UpdateInput (styled Dim (plain ''Enter your search''))],
                     stdin_raw := True\<rparr>"
  have "redrawn ?s2 (updateStatus None (Some True) ?s2)" by (rule updateStatus_redrawn)
  then show "at_state mixed0 [] 0 0 False 0 [] 0 0 None" "cachedResults mixed0 = Map.empty"
    "loadingNextPage mixed0 = {}" "searches mixed0 = []"
    by (simp_all add: mixed0_def at_state_def redrawn_fields) (simp_all add: initial_def)
qed

lemma mixed1:
  "reachable mixed_opts keep_all mixed1" "at_state mixed1 [] 0 0 False 1 [''a''] 0 0 None"
  "cachedResults mixed1 = Map.empty" "loadingNextPage mixed1 = {}" "searches mixed1 = []"
  "timer mixed1 \<noteq> None"
proof -
  have "reachable mixed_opts keep_all mixed0" using mixed0(1) by (rule reachable.constructed)
  from reachable.input[OF this onChangeInput_at(2)[OF mixed0(2)]]
  show "reachable mixed_opts keep_all mixed1" by (simp add: mixed1_def)
  show "at_state mixed1 [] 0 0 False 1 [''a''] 0 0 None"
    unfolding mixed1_def by (rule onChangeInput_at(1)[OF mixed0(2)])
  show "timer mixed1 \<noteq> None" unfolding mixed1_def by (rule onChangeInput_at(3)[OF mixed0(2)])
  show "cachedResults mixed1 = Map.empty" "loadingNextPage mixed1 = {}" "searches mixed1 = []"
    by (simp_all add: mixed1_def onChangeInput_def Let_def mixed0)
qed

lemma requestPage_at:
  assumes "at_state s fnd n lp m i cs ln sta ds"
  shows "at_state (requestPage s) fnd n lp m i cs ln sta ds"
  using assms by (simp add: at_state_def requestPage_fields)

lemma mixed2:
  "reachable mixed_opts keep_all mixed2" "at_state mixed2 [] 0 0 False 1 [''a''] 0 0 None"
  "cachedResults mixed2 = Map.empty" "fetch_a \<in> set (searches mixed2)"
  "loadingNextPage mixed2 \<subseteq> {1}"
proof -
  let ?t = "mixed1\<lparr>timer := None\<rparr>"
  let ?x = "?t\<lparr>line := 0, start := 0, loadedPages := 0, found := []\<rparr>"
  have a: "at_state ?x [] 0 0 False 1 [''a''] 0 0 None"
    using mixed1(2) by (simp add: at_state_def)
  have f: "filterDataset mixed_opts keep_all ?t = Some (Inr (requestPage ?x))"
    using mixed1(2) by (intro filterDataset_search_miss)
      (simp_all add: mixed_opts_fields mixed1(3) at_state_def)
  then have m: "mixed2 = requestPage ?x" by (simp add: mixed2_def)
  from reachable.timeout[OF mixed1(1) mixed1(6) f]
  show "reachable mixed_opts keep_all mixed2" by (simp add: m)
  show "at_state mixed2 [] 0 0 False 1 [''a''] 0 0 None"
    unfolding m using a by (rule requestPage_at)
  show "cachedResults mixed2 = Map.empty" by (simp add: m requestPage_fields mixed1(3))
  have "terms ?x = \<lparr>ident = 1, elems = [''a'']\<rparr>" using a by (simp add: at_state_def)
  then show "fetch_a \<in> set (searches mixed2)" "loadingNextPage mixed2 \<subseteq> {1}"
    by (simp_all add: m requestPage_searches requestPage_loading mixed1(4) next_fetch_def
        fetch_a_def join_def)
qed

lemma mixed3:
  "reachable mixed_opts keep_all mixed3" "at_state mixed3 five 12 1 True 1 [''a''] 0 0 None"
  "cachedResults mixed3 = [''a'' \<mapsto> (1, five, 12, True)]"
  "loadingNextPage mixed3 \<subseteq> {1}"
proof -
  have t: "terms mixed2 = \<lparr>ident = 1, elems = [''a'']\<rparr>" "found mixed2 = []"
    using mixed2(2) by (simp_all add: at_state_def)
  have "f_terms fetch_a = ident (terms mixed2)" "0 < f_page fetch_a"
    by (simp_all add: fetch_a_def t)
  moreover have "\<forall>x \<in> set (found mixed2 @ added_items (length (found mixed2)) (data page_five)).
                   index x < total_n page_five"
    using five_rows(2) by (simp add: t page_five_def added_five)
  ultimately obtain s' where c: "complete mixed_opts fetch_a page_five mixed2 = Some s'"
    and f: "found s' = found mixed2 @ added_items (length (found mixed2)) (data page_five)"
      "count s' = total_n page_five" "loadedPages s' = f_page fetch_a"
      "morePages s' = more_flag page_five" "terms s' = terms mixed2" "line s' = line mixed2"
      "start s' = start mixed2" "dataset s' = dataset mixed2" "listeners s' = listeners mixed2"
      "cachedResults s' =
               (if cache mixed_opts
                then (cachedResults mixed2)(f_query fetch_a \<mapsto>
                       (f_page fetch_a,
                        found mixed2 @ added_items (length (found mixed2)) (data page_five),
                        total_n page_five, more_flag page_five))
                else cachedResults mixed2)"
    using complete_accepted_drawn[of fetch_a mixed2 page_five mixed_opts] by blast
  have m: "mixed3 = s'" by (simp add: mixed3_def c)
  from reachable.page[OF mixed2(1) mixed2(4) c]
  show "reachable mixed_opts keep_all mixed3" by (simp add: m)
  show "at_state mixed3 five 12 1 True 1 [''a''] 0 0 None"
    using mixed2(2) unfolding m
    by (simp add: at_state_def f page_five_def added_five fetch_a_def)
  show "cachedResults mixed3 = [''a'' \<mapsto> (1, five, 12, True)]"
    unfolding m f
    by (simp add: mixed_opts_fields mixed2(3) t page_five_def added_five fetch_a_def)
  have "f_terms fetch_a = ident (terms mixed2)" "0 < f_page fetch_a"
    by (simp_all add: fetch_a_def t)
  from complete_loading[OF this, of mixed_opts page_five] c
  show "loadingNextPage mixed3 \<subseteq> {1}"
    unfolding m using mixed2(5) by (auto simp add: t)
qed

lemma mixed4:
  "reachable mixed_opts keep_all mixed4" "at_state mixed4 five 12 1 True 2 [''b''] 0 0 None"
  "cachedResults mixed4 = [''a'' \<mapsto> (1, five, 12, True)]" "timer mixed4 \<noteq> None"
  "loadingNextPage mixed4 \<subseteq> {1}"
proof -
  from reachable.input[OF mixed3(1) onChangeInput_at(2)[OF mixed3(2)]]
  show "reachable mixed_opts keep_all mixed4" by (simp add: mixed4_def)
  show "at_state mixed4 five 12 1 True 2 [''b''] 0 0 None"
    unfolding mixed4_def by (rule onChangeInput_at(1)[OF mixed3(2)])
  show "timer mixed4 \<noteq> None" unfolding mixed4_def by (rule onChangeInput_at(3)[OF mixed3(2)])
  show "cachedResults mixed4 = [''a'' \<mapsto> (1, five, 12, True)]"
    unfolding mixed4_def onChangeInput_at(4)[OF mixed3(2)] by (rule mixed3(3))
  show "loadingNextPage mixed4 \<subseteq> {1}"
    using mixed3(4) by (simp add: mixed4_def onChangeInput_def Let_def)
qed

lemma mixed5:
  "reachable mixed_opts keep_all mixed5" "at_state mixed5 [] 12 0 True 2 [''b''] 0 0 None"
  "cachedResults mixed5 = [''a'' \<mapsto> (1, five, 12, True)]"
  "fetch_b \<in> set (searches mixed5)"
proof -
  let ?t = "mixed4\<lparr>timer := None\<rparr>"
  let ?x = "?t\<lparr>line := 0, start := 0, loadedPages := 0, found := []\<rparr>"
  have a: "at_state ?x [] 12 0 True 2 [''b''] 0 0 None"
    using mixed4(2) by (simp add: at_state_def)
  have f: "filterDataset mixed_opts keep_all ?t = Some (Inr (requestPage ?x))"
    using mixed4(2) by (intro filterDataset_search_miss)
      (simp_all add: mixed_opts_fields mixed4(3) at_state_def join_def)
  then have m: "mixed5 = requestPage ?x" by (simp add: mixed5_def)
  from reachable.timeout[OF mixed4(1) mixed4(4) f]
  show "reachable mixed_opts keep_all mixed5" by (simp add: m)
  show "at_state mixed5 [] 12 0 True 2 [''b''] 0 0 None"
    unfolding m using a by (rule requestPage_at)
  show "cachedResults mixed5 = [''a'' \<mapsto> (1, five, 12, True)]"
    by (simp add: m requestPage_fields mixed4(3))
  have "terms ?x = \<lparr>ident = 2, elems = [''b'']\<rparr>" "loadedPages ?x = 0"
    using a by (simp_all add: at_state_def)
  moreover have "ident (terms ?x) \<notin> loadingNextPage ?x"
    using mixed4(5) calculation(1) by auto
  ultimately show "fetch_b \<in> set (searches mixed5)"
    by (simp add: m requestPage_searches next_fetch_def fetch_b_def join_def)
qed

lemma redrawn_at:
  assumes "redrawn s s'" "at_state s fnd n lp m i cs ln sta ds"
  shows "at_state s' fnd n lp m i cs ln sta ds"
  using assms by (simp add: at_state_def redrawn_fields)

lemma mixed6:
  "reachable mixed_opts keep_all mixed6"
  "at_state mixed6 sixteen 16 0 True 2 [''b''] 0 0 (Some sixteen)"
  "cachedResults mixed6 = [''a'' \<mapsto> (1, five, 12, True)]"
  "fetch_b \<in> set (searches mixed6)"
proof -
  let ?d = "mixed5\<lparr>dataset := Some sixteen\<rparr>"
  let ?x = "?d\<lparr>line := 0, start := 0, found := keep_all sixteen (elems (terms ?d)),
               count := length (keep_all sixteen (elems (terms ?d)))\<rparr>"
  have k: "keep_all sixteen cs = sixteen" for cs by (rule keep_all_sixteen)
  have d: "dataset ?d = Some sixteen" by simp
  have p1: "\<forall>r \<in> set (keep_all sixteen (elems (terms ?d))).
              index r < length (keep_all sixteen (elems (terms ?d)))"
    unfolding k by (simp add: sixteen_rows)
  have p2: "opt_size mixed_opts < int (length (keep_all sixteen (elems (terms ?d))))"
    unfolding k by (simp add: sixteen_rows mixed_opts_fields)
  from filterDataset_data_quiet[where opts = mixed_opts and s = "?d" and ds = sixteen
      and fuzzy = keep_all, OF mixed_opts_fields(1) d p1 p2]
  obtain s' where f: "filterDataset mixed_opts keep_all ?d = Some (Inr s')"
    and rd: "redrawn ?x s'"
    by blast
  have c: "datasetLoaded mixed_opts keep_all (Some sixteen) mixed5 = Some s'"
    by (simp add: datasetLoaded_def checkDataset_def sixteen_rows f catch_end_def)
  then have m: "mixed6 = s'" by (simp add: mixed6_def)
  from reachable.loaded[OF mixed5(1) mixed_opts_fields(1) c]
  show "reachable mixed_opts keep_all mixed6" by (simp add: m)
  have "at_state ?x sixteen 16 0 True 2 [''b''] 0 0 (Some sixteen)"
    using mixed5(2) by (simp add: at_state_def k sixteen_rows)
  with rd show "at_state mixed6 sixteen 16 0 True 2 [''b''] 0 0 (Some sixteen)"
    unfolding m by (rule redrawn_at)
  show "cachedResults mixed6 = [''a'' \<mapsto> (1, five, 12, True)]"
    using rd by (simp add: m redrawn_fields mixed5(3))
  show "fetch_b \<in> set (searches mixed6)"
    using rd mixed5(4) by (simp add: m redrawn_fields)
qed

lemma mixed7:
  "reachable mixed_opts keep_all mixed7"
  "at_state mixed7 sixteen 16 0 True 3 [''a''] 0 0 (Some sixteen)"
  "cachedResults mixed7 = [''a'' \<mapsto> (1, five, 12, True)]" "timer mixed7 \<noteq> None"
proof -
  from reachable.input[OF mixed6(1) onChangeInput_at(2)[OF mixed6(2)]]
  show "reachable mixed_opts keep_all mixed7" by (simp add: mixed7_def)
  show "at_state mixed7 sixteen 16 0 True 3 [''a''] 0 0 (Some sixteen)"
    unfolding mixed7_def by (rule onChangeInput_at(1)[OF mixed6(2)])
  show "timer mixed7 \<noteq> None" unfolding mixed7_def by (rule onChangeInput_at(3)[OF mixed6(2)])
  show "cachedResults mixed7 = [''a'' \<mapsto> (1, five, 12, True)]"
    unfolding mixed7_def onChangeInput_at(4)[OF mixed6(2)] by (rule mixed6(3))
qed

lemma mixed8:
  "reachable mixed_opts keep_all mixed8"
  "at_state mixed8 sixteen 16 0 True 3 [''a''] 0 0 (Some sixteen)"
  "cachedResults mixed8 = [''a'' \<mapsto> (1, five, 12, True)]"
proof -
  let ?t = "mixed7\<lparr>timer := None\<rparr>"
  let ?x = "?t\<lparr>line := 0, start := 0, found := keep_all sixteen (elems (terms ?t)),
               count := length (keep_all sixteen (elems (terms ?t)))\<rparr>"
  have k: "keep_all sixteen cs = sixteen" for cs by (rule keep_all_sixteen)
  have d: "dataset ?t = Some sixteen" using mixed7(2) by (simp add: at_state_def)
  have p1: "\<forall>r \<in> set (keep_all sixteen (elems (terms ?t))).
              index r < length (keep_all sixteen (elems (terms ?t)))"
    unfolding k by (simp add: sixteen_rows)
  have p2: "opt_size mixed_opts < int (length (keep_all sixteen (elems (terms ?t))))"
    unfolding k by (simp add: sixteen_rows mixed_opts_fields)
  from filterDataset_data_quiet[where opts = mixed_opts and s = "?t" and ds = sixteen
      and fuzzy = keep_all, OF mixed_opts_fields(1) d p1 p2]
  obtain s' where f: "filterDataset mixed_opts keep_all ?t = Some (Inr s')"
    and rd: "redrawn ?x s'"
    by blast
  then have m: "mixed8 = s'" by (simp add: mixed8_def)
  from reachable.timeout[OF mixed7(1) mixed7(4) f]
  show "reachable mixed_opts keep_all mixed8" by (simp add: m)
  have "at_state ?x sixteen 16 0 True 3 [''a''] 0 0 (Some sixteen)"
    using mixed7(2) by (simp add: at_state_def k sixteen_rows)
  with rd show "at_state mixed8 sixteen 16 0 True 3 [''a''] 0 0 (Some sixteen)"
    unfolding m by (rule redrawn_at)
  show "cachedResults mixed8 = [''a'' \<mapsto> (1, five, 12, True)]"
    using rd by (simp add: m redrawn_fields mixed7(3))
qed

lemma mixed9:
  "reachable mixed_opts keep_all mixed9" "found mixed9 = five" "loadedPages mixed9 = 1"
  "line mixed9 = 15" "start mixed9 = 6"
  "emit mixed_opts 3000 (Line 15 0) mixed8 = Some (Inr mixed9)"
proof -
  let ?m = "moveLine mixed_opts 15 0 mixed8"
  let ?c = "(1::nat, five, 12::nat, True)"
  have a: "found mixed8 = sixteen" "count mixed8 = 16" "loadedPages mixed8 = 0"
    "morePages mixed8" "terms mixed8 = \<lparr>ident = 3, elems = [''a'']\<rparr>" "line mixed8 = 0"
    "start mixed8 = 0" "listeners mixed8"
    using mixed8(2) by (simp_all add: at_state_def)
  have l: "line ?m = 15"
    by (simp add: moveLine_fields a sixteen_rows mixed_opts_fields)
  have s: "start ?m = 6"
    unfolding moveLine_start l by (simp add: a mixed_opts_fields)
  have mf: "found ?m = sixteen" "count ?m = 16" "morePages ?m" "loadedPages ?m = 0"
    "terms ?m = \<lparr>ident = 3, elems = [''a'']\<rparr>"
    "cachedResults ?m = [''a'' \<mapsto> (1, five, 12, True)]"
    by (simp_all add: moveLine_def Let_def a mixed8(3))
  have "\<forall>r \<in> set (found ?m). index r < count ?m" using sixteen_rows(2) by (simp add: mf)
  from render_fit[OF this, of mixed_opts]
  obtain s' where r: "render mixed_opts ?m = Inr s'" by blast
  then have rd: "redrawn ?m s'" using render_redrawn[of ?m mixed_opts] by simp
  have lv: "lastVisible mixed_opts s'"
    using rd by (simp add: lastVisible_def redrawn_fields mf l s mixed_opts_fields sixteen_rows)
  have u: "updateList mixed_opts ?m = loadNextPage mixed_opts s'"
    using r lv by (simp add: updateList_def)
  have "loadedPages s' = 0" "cachedResults s' (join (terms s')) = Some ?c"
    using rd by (simp_all add: redrawn_fields mf join_def)
  note hit = this
  from loadNextPage_restores[OF hit, of mixed_opts]
  obtain x where x: "loadNextPage mixed_opts s' = Some x"
    and k: "results_kept (restore ?c s') (st x)" and sd: "steady s' (st x)"
    by auto
  have "\<forall>r \<in> set (found (restore ?c s')). index r < count (restore ?c s')"
    using five_rows(2) by (simp add: restore_def)
  from render_fit[OF this, of mixed_opts]
  obtain s2 where "render mixed_opts (restore ?c s') = Inr s2" by blast
  then have "x = Inr (st x)"
    using loadNextPage_hit[OF hit, of mixed_opts] x by (auto split: if_splits)
  then have e: "emit mixed_opts 3000 (Line 15 0) mixed8 = Some (Inr (st x))"
    using a(8) u x by (simp add: emit_def onChangeLine_def)
  then have m: "mixed9 = st x" by (simp add: mixed9_def)
  from reachable.input[OF mixed8(1) e]
  show "reachable mixed_opts keep_all mixed9" by (simp add: m)
  show "found mixed9 = five" "loadedPages mixed9 = 1"
    using k by (simp_all add: m results_kept_def restore_def)
  show "line mixed9 = 15" "start mixed9 = 6"
    using sd rd by (simp_all add: m steady_def redrawn_fields l s)
  show "emit mixed_opts 3000 (Line 15 0) mixed8 = Some (Inr mixed9)"
    using e by (simp add: m)
qed

lemma shown_five_at:
  "at_state shown_five five 12 1 True 0 [] 0 0 None"
  "cachedResults shown_five = [[] \<mapsto> (1, five, 12, True)]"
  "loadingNextPage shown_five \<subseteq> {0}"
  "fetch_second \<in> set (searches shown_five)"
proof -
  have st: "at_state started [] 0 0 False 0 [] 0 0 None" "cachedResults started = Map.empty"
    by (simp_all add: at_state_def started_view started_fields)
       (simp_all add: started_def requestPage_fields initial_def)
  have t: "f_terms fetch_first = ident (terms started)" "0 < f_page fetch_first"
    by (simp_all add: started_fields) (simp_all add: fetch_first_def)
  have "\<forall>x \<in> set (found started @ added_items (length (found started)) (data page_five)).
                   index x < total_n page_five"
    using five_rows(2) by (simp add: started_fields page_five_def added_five)
  from complete_accepted_drawn[OF t this, of search_opts]
  obtain s' where c: "complete search_opts fetch_first page_five started = Some s'"
    and f: "found s' = found started @ added_items (length (found started)) (data page_five)"
      "count s' = total_n page_five" "loadedPages s' = f_page fetch_first"
      "morePages s' = more_flag page_five" "terms s' = terms started" "line s' = line started"
      "start s' = start started" "dataset s' = dataset started"
      "listeners s' = listeners started"
      "cachedResults s' =
               (if cache search_opts
                then (cachedResults started)(f_query fetch_first \<mapsto>
                       (f_page fetch_first,
                        found started @ added_items (length (found started)) (data page_five),
                        total_n page_five, more_flag page_five))
                else cachedResults started)"
    and se: "searches s' =
               (if truthy (opt_search search_opts)
                   \<and> int (length (found started) + length (data page_five))
                       \<le> start started + opt_size search_opts
                   \<and> more_flag page_five
                then searches started @ [\<lparr>f_terms = ident (terms started),
                                           f_query = join (terms started),
                                           f_page = f_page fetch_first + 1\<rparr>]
                else searches started)"
    by blast
  have m: "shown_five = s'" by (simp add: shown_five_def c)
  show "at_state shown_five five 12 1 True 0 [] 0 0 None"
    using st(1) unfolding m
    by (simp add: at_state_def f page_five_def added_five fetch_first_def)
  show "cachedResults shown_five = [[] \<mapsto> (1, five, 12, True)]"
    unfolding m f
    by (simp add: search_opts_def st(2) started_fields page_five_def added_five fetch_first_def)
  from complete_loading[OF t, of search_opts page_five] c
  show "loadingNextPage shown_five \<subseteq> {0}"
    unfolding m by (auto simp add: started_fields)
  show "fetch_second \<in> set (searches shown_five)"
    unfolding m se
    by (simp add: started_fields started_view page_five_def five_rows fetch_first_def
        fetch_second_def join_def search_opts_def)
qed

lemma retyped1:
  "reachable search_opts keep_all retyped1" "at_state retyped1 five 12 1 True 4 [''b''] 0 0 None"
  "cachedResults retyped1 = [[] \<mapsto> (1, five, 12, True)]" "timer retyped1 \<noteq> None"
  "loadingNextPage retyped1 \<subseteq> {0}"
proof -
  from reachable.input[OF shown_five(1) onChangeInput_at(2)[OF shown_five_at(1)]]
  show "reachable search_opts keep_all retyped1" by (simp add: retyped1_def)
  show "at_state retyped1 five 12 1 True 4 [''b''] 0 0 None"
    unfolding retyped1_def by (rule onChangeInput_at(1)[OF shown_five_at(1)])
  show "timer retyped1 \<noteq> None"
    unfolding retyped1_def by (rule onChangeInput_at(3)[OF shown_five_at(1)])
  show "cachedResults retyped1 = [[] \<mapsto> (1, five, 12, True)]"
    unfolding retyped1_def onChangeInput_at(4)[OF shown_five_at(1)] by (rule shown_five_at(2))
  show "loadingNextPage retyped1 \<subseteq> {0}"
    using shown_five_at(3) by (simp add: retyped1_def onChangeInput_def Let_def)
qed

lemma retyped2:
  "reachable search_opts keep_all retyped2" "at_state retyped2 [] 12 0 True 4 [''b''] 0 0 None"
  "cachedResults retyped2 = [[] \<mapsto> (1, five, 12, True)]"
  "loadingNextPage retyped2 \<subseteq> {0, 4}"
proof -
  let ?t = "retyped1\<lparr>timer := None\<rparr>"
  let ?x = "?t\<lparr>line := 0, start := 0, loadedPages := 0, found := []\<rparr>"
  have a: "at_state ?x [] 12 0 True 4 [''b''] 0 0 None"
    using retyped1(2) by (simp add: at_state_def)
  have f: "filterDataset search_opts keep_all ?t = Some (Inr (requestPage ?x))"
    using retyped1(2) by (intro filterDataset_search_miss)
      (simp_all add: search_opts_def retyped1(3) at_state_def join_def)
  then have m: "retyped2 = requestPage ?x" by (simp add: retyped2_def)
  from reachable.timeout[OF retyped1(1) retyped1(4) f]
  show "reachable search_opts keep_all retyped2" by (simp add: m)
  show "at_state retyped2 [] 12 0 True 4 [''b''] 0 0 None"
    unfolding m using a by (rule requestPage_at)
  show "cachedResults retyped2 = [[] \<mapsto> (1, five, 12, True)]"
    by (simp add: m requestPage_fields retyped1(3))
  have "terms ?x = \<lparr>ident = 4, elems = [''b'']\<rparr>" using a by (simp add: at_state_def)
  then show "loadingNextPage retyped2 \<subseteq> {0, 4}"
    using retyped1(5) by (auto simp add: m requestPage_loading)
qed

lemma retyped3:
  "reachable search_opts keep_all retyped3" "at_state retyped3 [] 12 0 True 6 [] 0 0 None"
  "cachedResults retyped3 = [[] \<mapsto> (1, five, 12, True)]" "timer retyped3 \<noteq> None"
  "loadingNextPage retyped3 \<subseteq> {0, 4}"
proof -
  from reachable.input[OF retyped2(1) onChangeInput_at(2)[OF retyped2(2)]]
  show "reachable search_opts keep_all retyped3" by (simp add: retyped3_def)
  show "at_state retyped3 [] 12 0 True 6 [] 0 0 None"
    unfolding retyped3_def by (rule onChangeInput_at(1)[OF retyped2(2)])
  show "timer retyped3 \<noteq> None"
    unfolding retyped3_def by (rule onChangeInput_at(3)[OF retyped2(2)])
  show "cachedResults retyped3 = [[] \<mapsto> (1, five, 12, True)]"
    unfolding retyped3_def onChangeInput_at(4)[OF retyped2(2)] by (rule retyped2(3))
  show "loadingNextPage retyped3 \<subseteq> {0, 4}"
    using retyped2(4) by (simp add: retyped3_def onChangeInput_def Let_def)
qed

section \<open>The claims\<close>

text \<open>
  C1. A page that arrives for the terms object \<open>Q1\<close> while \<open>terms\<close> holds another
  object \<open>Q2\<close> is discarded whole: the handler returns, \<open>found\<close>, \<open>count\<close>,
  \<open>loadedPages\<close> and \<open>morePages\<close> are what they were, so are the cache, the draft lines
  and the calls to the search collaborator, and the state that results is the same for
  every page \<open>r'\<close> that could have arrived: no item of the page is kept anywhere. Only
  the in-flight mark of \<open>Q1\<close> is removed.
\<close>

theorem C1_stale_page_discarded:
  assumes "f_terms f \<noteq> ident (terms s)"
  shows "\<exists>s'. complete opts f r s = Some s'
           \<and> found s' = found s \<and> count s' = count s
           \<and> loadedPages s' = loadedPages s \<and> morePages s' = morePages s
           \<and> cachedResults s' = cachedResults s \<and> drafts s' = drafts s
           \<and> searches s' = searches s
           \<and> s' = s\<lparr>loadingNextPage := loadingNextPage s - {f_terms f}\<rparr>
           \<and> complete opts f r' s = Some s'"
  using assms by (simp add: complete_def Let_def)

theorem C1_stale_page_discarded_witness:
  "f_terms fetch_a \<noteq> ident (terms typed_ab)
   \<and> (\<exists>s'. complete search_opts fetch_a page_a typed_ab = Some s'
           \<and> found s' = found typed_ab \<and> count s' = count typed_ab
           \<and> loadedPages s' = loadedPages typed_ab \<and> morePages s' = morePages typed_ab
           \<and> cachedResults s' = cachedResults typed_ab \<and> drafts s' = drafts typed_ab
           \<and> searches s' = searches typed_ab
           \<and> s' = typed_ab\<lparr>loadingNextPage := loadingNextPage typed_ab - {f_terms fetch_a}\<rparr>
           \<and> complete search_opts fetch_a
                \<lparr>data = [], total_n = 0, more_flag = True\<rparr> typed_ab = Some s')"
proof -
  have h: "f_terms fetch_a \<noteq> ident (terms typed_ab)"
    by (simp add: fetch_a_def typed_ab_def)
  show ?thesis
    using h C1_stale_page_discarded [OF h] by blast
qed

text \<open>
  C2, as the code has it. \<open>end\<close> removes the input listeners and settles the promise, so
  that no input event changes the state afterwards. A page that arrives later goes through
  the same handler as before, which does not look at the listeners or the promise: the
  page is dropped only when its terms object is no longer the current one, and a page for
  the current terms object is appended to \<open>found\<close>, sets \<open>count\<close>, \<open>loadedPages\<close> and
  \<open>morePages\<close> and redraws the display.
\<close>

theorem C2_pages_after_end:
  "\<not> listeners (end_fn err res s) \<and> settled (end_fn err res s) \<noteq> None
   \<and> emit opts now ev (end_fn err res s) = Some (Inr (end_fn err res s))
   \<and> (f_terms f \<noteq> ident (terms s) \<longrightarrow>
        (\<exists>s'. complete opts f r (end_fn err res s) = Some s'
           \<and> found s' = found s \<and> count s' = count s \<and> loadedPages s' = loadedPages s
           \<and> morePages s' = morePages s \<and> drafts s' = drafts s))
   \<and> (f_terms f = ident (terms s) \<and> 0 < f_page f \<longrightarrow>
        (\<exists>s' x d. complete opts f r (end_fn err res s) = Some s'
           \<and> found s' = found s @ added_items (length (found s)) (data r)
           \<and> count s' = total_n r \<and> loadedPages s' = f_page f
           \<and> morePages s' = more_flag r
           \<and> drafts s' = drafts s @ UpdateStatus x # d))"
proof (intro conjI impI)
  show "\<not> listeners (end_fn err res s)" by (simp add: end_fn_fields)
  show "settled (end_fn err res s) \<noteq> None"
    by (simp add: end_fn_def split: option.splits)
  show "emit opts now ev (end_fn err res s) = Some (Inr (end_fn err res s))"
    by (simp add: emit_def end_fn_fields)
next
  assume "f_terms f \<noteq> ident (terms s)"
  then show "\<exists>s'. complete opts f r (end_fn err res s) = Some s'
           \<and> found s' = found s \<and> count s' = count s \<and> loadedPages s' = loadedPages s
           \<and> morePages s' = morePages s \<and> drafts s' = drafts s"
    by (simp add: complete_def Let_def end_fn_fields)
next
  assume "f_terms f = ident (terms s) \<and> 0 < f_page f"
  then have "f_terms f = ident (terms (end_fn err res s))" "0 < f_page f"
    by (simp_all add: end_fn_fields)
  from complete_accepted[OF this, of opts r]
  show "\<exists>s' x d. complete opts f r (end_fn err res s) = Some s'
           \<and> found s' = found s @ added_items (length (found s)) (data r)
           \<and> count s' = total_n r \<and> loadedPages s' = f_page f
           \<and> morePages s' = more_flag r
           \<and> drafts s' = drafts s @ UpdateStatus x # d"
    by (auto simp add: end_fn_fields)
qed

theorem C2_late_page_applied_counterexample:
  "reachable search_opts keep_all started
   \<and> emit search_opts 0 End started = Some (Inr (onEnd started))
   \<and> settled (onEnd started) = Some (Resolved None) \<and> \<not> listeners (onEnd started)
   \<and> found (onEnd started) = [] \<and> count (onEnd started) = 0
   \<and> loadedPages (onEnd started) = 0
   \<and> fetch_first \<in> set (searches (onEnd started))
   \<and> map_option found (complete search_opts fetch_first page_a (onEnd started)) = Some [apple]
   \<and> map_option count (complete search_opts fetch_first page_a (onEnd started)) = Some 1
   \<and> map_option loadedPages (complete search_opts fetch_first page_a (onEnd started)) = Some 1
   \<and> map_option drafts (complete search_opts fetch_first page_a (onEnd started))
       \<noteq> Some (drafts (onEnd started))"
proof -
  have re: "reachable search_opts keep_all started"
    using construct_started by (rule reachable.constructed)
  have st: "settled started = None" "count started = 0" "loadedPages started = 0"
    by (simp_all add: started_def requestPage_fields) (simp_all add: initial_def)
  have "f_terms fetch_first = ident (terms (onEnd started))" "0 < f_page fetch_first"
    by (simp_all add: fetch_first_def onEnd_def end_fn_fields started_fields)
  from complete_accepted[OF this, of search_opts page_a]
  obtain s' x d where "complete search_opts fetch_first page_a (onEnd started) = Some s'"
    and "found s' = found (onEnd started)
           @ added_items (length (found (onEnd started))) (data page_a)"
    and "count s' = total_n page_a" and "loadedPages s' = f_page fetch_first"
    and "drafts s' = drafts (onEnd started) @ UpdateStatus x # d"
    by blast
  then show ?thesis
    using re st
    by (simp add: onEnd_def end_fn_def emit_def started_view started_fields page_a_def
        fetch_first_def added_items_def apple_def)
qed

theorem C2_pages_after_end_witness:
  "f_terms fetch_a3 \<noteq> ident (terms started)
   \<and> (\<exists>s'. complete search_opts fetch_a3 page_a (end_fn None None started) = Some s'
          \<and> found s' = found started \<and> count s' = count started
          \<and> loadedPages s' = loadedPages started \<and> morePages s' = morePages started
          \<and> drafts s' = drafts started)
   \<and> f_terms fetch_first = ident (terms started) \<and> 0 < f_page fetch_first
   \<and> (\<exists>s' x d. complete search_opts fetch_first page_a (end_fn None None started) = Some s'
          \<and> found s' = found started @ added_items (length (found started)) (data page_a)
          \<and> count s' = total_n page_a \<and> loadedPages s' = f_page fetch_first
          \<and> morePages s' = more_flag page_a
          \<and> drafts s' = drafts started @ UpdateStatus x # d)"
proof -
  have a: "f_terms fetch_a3 \<noteq> ident (terms started)"
    by (simp add: fetch_a3_def started_fields)
  have b: "f_terms fetch_first = ident (terms started) \<and> 0 < f_page fetch_first"
    by (simp add: fetch_first_def started_fields)
  show ?thesis
    using a b
      C2_pages_after_end [of None None started search_opts 0 Select fetch_a3 page_a]
      C2_pages_after_end [of None None started search_opts 0 Select fetch_first page_a]
    by blast
qed

text \<open>
  C3. While a fetch is in flight for the terms object, \<open>loadNextPage\<close> ends without
  calling the search collaborator and leaves the in-flight marks as they are. So two calls
  in a row, from a state with no fetch in flight for the terms object, call the
  collaborator once between them, for the terms object and the page after the loaded ones:
  the call that comes while the fetch is in flight adds none. The hypothesis says that the
  cache entry of the current query, if any, holds a loaded page, which is so wherever a
  session calls \<open>loadNextPage\<close> (\<open>reachable_pages_pos\<close>, and the lemmas on
  \<open>pages_pos\<close> for the functions that call it); it makes the two calls end.
\<close>

theorem C3_one_fetch_per_terms_object:
  assumes "cached_page_ok s"
  shows "(ident (terms s) \<in> loadingNextPage s \<longrightarrow>
            (\<exists>r. loadNextPage opts s = Some r \<and> searches (st r) = searches s
                  \<and> loadingNextPage (st r) = loadingNextPage s))
       \<and> (ident (terms s) \<notin> loadingNextPage s \<longrightarrow>
            (\<exists>r1 r2. loadNextPage opts s = Some r1 \<and> loadNextPage opts (st r1) = Some r2
                  \<and> searches (st r2) = searches s @
                       [\<lparr>f_terms = ident (terms s), f_query = join (terms s),
                         f_page = loadedPages (st r1) + 1\<rparr>]))"
proof (intro conjI impI)
  assume fl: "ident (terms s) \<in> loadingNextPage s"
  show "\<exists>r. loadNextPage opts s = Some r \<and> searches (st r) = searches s
                  \<and> loadingNextPage (st r) = loadingNextPage s"
  proof (cases "loadedPages s = 0 \<and> cachedResults s (join (terms s)) \<noteq> None")
    case False
    then have "loadNextPage opts s = Some (Inr (requestPage s))" by (rule loadNextPage_miss)
    then show ?thesis using requestPage_in_flight[OF fl] by (simp add: redrawn_fields)
  next
    case True
    then obtain c where c: "cachedResults s (join (terms s)) = Some c" by blast
    let ?b = "restore c s"
    note eq = loadNextPage_hit'(1)[OF assms conjunct1[OF True] c]
    have rd: "redrawn ?b (st (render opts ?b))" by (rule render_redrawn)
    show ?thesis
    proof (cases "render opts ?b")
      case (Inl t)
      then show ?thesis using eq rd by (simp add: redrawn_fields restore_fields)
    next
      case (Inr s')
      with rd have rd': "redrawn ?b s'" by simp
      then have "ident (terms s') \<in> loadingNextPage s'"
        using fl by (simp add: redrawn_fields restore_fields)
      then have "redrawn s' (requestPage s')" by (rule requestPage_in_flight)
      then show ?thesis using eq rd' Inr by (simp add: redrawn_fields restore_fields)
    qed
  qed
next
  assume nf: "ident (terms s) \<notin> loadingNextPage s"
  let ?goal = "\<exists>r1 r2. loadNextPage opts s = Some r1 \<and> loadNextPage opts (st r1) = Some r2
                  \<and> searches (st r2) = searches s @
                       [\<lparr>f_terms = ident (terms s), f_query = join (terms s),
                         f_page = loadedPages (st r1) + 1\<rparr>]"
  have again: "loadNextPage opts (requestPage s') = Some (Inr (requestPage (requestPage s')))
               \<and> searches (requestPage (requestPage s')) = searches s' @ [next_fetch s']"
    if "0 < loadedPages s' \<or> cachedResults s' (join (terms s')) = None"
      and "ident (terms s') \<notin> loadingNextPage s'" for s'
  proof -
    have "loadNextPage opts (requestPage s') = Some (Inr (requestPage (requestPage s')))"
      using that(1) by (intro loadNextPage_miss) (auto simp add: requestPage_fields)
    moreover have "searches (requestPage (requestPage s')) = searches s' @ [next_fetch s']"
      using that(2)
      by (simp add: requestPage_searches requestPage_fields requestPage_loading)
    ultimately show ?thesis by simp
  qed
  show ?goal
  proof (cases "loadedPages s = 0 \<and> cachedResults s (join (terms s)) \<noteq> None")
    case False
    then have 1: "loadNextPage opts s = Some (Inr (requestPage s))" by (rule loadNextPage_miss)
    from False have "0 < loadedPages s \<or> cachedResults s (join (terms s)) = None" by auto
    from again[OF this nf] 1 show ?thesis
      by (simp add: next_fetch_def requestPage_fields)
  next
    case True
    then obtain c where c: "cachedResults s (join (terms s)) = Some c" by blast
    let ?b = "restore c s"
    note eq = loadNextPage_hit'[OF assms conjunct1[OF True] c]
    have rd: "redrawn ?b (st (render opts ?b))" by (rule render_redrawn)
    have ask: "loadNextPage opts s' = Some (Inr (requestPage s'))
               \<and> searches (requestPage s') = searches s @
                    [\<lparr>f_terms = ident (terms s), f_query = join (terms s),
                      f_page = loadedPages s' + 1\<rparr>]"
      if "redrawn ?b s'" for s'
    proof -
      have "loadedPages s' \<noteq> 0" using that eq(2) by (simp add: redrawn_fields restore_fields)
      then have "loadNextPage opts s' = Some (Inr (requestPage s'))"
        by (simp add: loadNextPage_miss)
      then show ?thesis using that nf
        by (simp add: requestPage_searches next_fetch_def redrawn_fields restore_fields)
    qed
    show ?thesis
    proof (cases "render opts ?b")
      case (Inl t)
      then have 1: "loadNextPage opts s = Some (Inl t)" using eq(1) by simp
      have "redrawn ?b (st (Inl t))" using rd Inl by simp
      from ask[OF this] 1 show ?thesis by auto
    next
      case (Inr s')
      with rd have rd': "redrawn ?b s'" by simp
      show ?thesis
      proof (cases "lastVisible opts s'")
        case False
        then have "loadNextPage opts s = Some (Inr s')" using eq(1) Inr by simp
        with ask[OF rd'] show ?thesis by auto
      next
        case True
        then have 1: "loadNextPage opts s = Some (Inr (requestPage s'))" using eq(1) Inr by simp
        have "0 < loadedPages s' \<or> cachedResults s' (join (terms s')) = None"
          using rd' eq(2) by (simp add: redrawn_fields restore_fields)
        moreover have "ident (terms s') \<notin> loadingNextPage s'"
          using rd' nf by (simp add: redrawn_fields restore_fields)
        ultimately have "loadNextPage opts (requestPage s')
                           = Some (Inr (requestPage (requestPage s')))
               \<and> searches (requestPage (requestPage s')) = searches s' @ [next_fetch s']"
          by (rule again)
        with 1 show ?thesis using rd'
          by (auto simp add: next_fetch_def requestPage_fields redrawn_fields restore_fields)
      qed
    qed
  qed
qed


theorem C3_one_fetch_per_terms_object_witness:
  "cached_page_ok in_flight_ab \<and> ident (terms in_flight_ab) \<in> loadingNextPage in_flight_ab
   \<and> (\<exists>r. loadNextPage search_opts in_flight_ab = Some r
          \<and> searches (st r) = searches in_flight_ab
          \<and> loadingNextPage (st r) = loadingNextPage in_flight_ab)
   \<and> cached_page_ok typed_ab \<and> ident (terms typed_ab) \<notin> loadingNextPage typed_ab
   \<and> (\<exists>r1 r2. loadNextPage search_opts typed_ab = Some r1
          \<and> loadNextPage search_opts (st r1) = Some r2
          \<and> searches (st r2) = searches typed_ab @
               [\<lparr>f_terms = ident (terms typed_ab), f_query = join (terms typed_ab),
                 f_page = loadedPages (st r1) + 1\<rparr>])"
proof -
  have a: "cached_page_ok in_flight_ab"
    by (simp add: cached_page_ok_def in_flight_ab_def typed_ab_def initial_def)
  have b: "ident (terms in_flight_ab) \<in> loadingNextPage in_flight_ab"
    by (simp add: in_flight_ab_def typed_ab_def)
  have c: "cached_page_ok typed_ab"
    by (simp add: cached_page_ok_def typed_ab_def initial_def)
  have d: "ident (terms typed_ab) \<notin> loadingNextPage typed_ab"
    by (simp add: typed_ab_def)
  show ?thesis
    using a b c d C3_one_fetch_per_terms_object [OF a, of search_opts]
      C3_one_fetch_per_terms_object [OF c, of search_opts]
    by blast
qed

text \<open>
  C4, as the code has it. With the cache on, a page that is accepted (its terms object
  is still the current one) stores \<open>loadedPages\<close>, \<open>found\<close>, \<open>count\<close> and
  \<open>morePages\<close>, as they are after the page, under the query string the fetch was started
  with. When \<open>loadNextPage\<close> runs with \<open>loadedPages = 0\<close> and an entry for the joined
  terms, it restores exactly the four stored values and asks for no stored page again. It
  still calls the search collaborator in one case, through the display update that follows
  the restore: when the rows were drawn, \<open>search\<close> is set, \<open>start + size >= found.length\<close>
  and \<open>morePages\<close> hold for the restored values and no fetch is in flight for the terms
  object, it asks for the page after the stored ones; otherwise it makes no call. A
  session gets there when a query is typed again whose first page was stored while the
  next one was awaited (\<open>reentry\<close>).
\<close>

theorem C4_cache_round_trip:
  "(cache opts \<and> f_terms f = ident (terms s) \<and> 0 < f_page f \<longrightarrow>
      (\<exists>s'. complete opts f r s = Some s'
         \<and> cachedResults s' (f_query f)
             = Some (loadedPages s', found s', count s', morePages s')
         \<and> found s' = found s @ added_items (length (found s)) (data r)
         \<and> count s' = total_n r \<and> loadedPages s' = f_page f
         \<and> morePages s' = more_flag r))
   \<and> (loadedPages s = 0 \<and> cachedResults s (join (terms s)) = Some (lp, fnd, n, m) \<and> 0 < lp
        \<longrightarrow>
      (\<exists>res. loadNextPage opts s = Some res
         \<and> loadedPages (st res) = lp \<and> found (st res) = fnd \<and> count (st res) = n
         \<and> morePages (st res) = m
         \<and> searches (st res) =
             (if (\<exists>s'. render opts (restore (lp, fnd, n, m) s) = Inr s')
                 \<and> truthy (opt_search opts)
                 \<and> start s + opt_size opts \<ge> int (length fnd) \<and> m
                 \<and> ident (terms s) \<notin> loadingNextPage s
              then searches s @
                     [\<lparr>f_terms = ident (terms s), f_query = join (terms s), f_page = lp + 1\<rparr>]
              else searches s)))"
proof (intro conjI impI)
  assume "cache opts \<and> f_terms f = ident (terms s) \<and> 0 < f_page f"
  then show "\<exists>s'. complete opts f r s = Some s'
         \<and> cachedResults s' (f_query f)
             = Some (loadedPages s', found s', count s', morePages s')
         \<and> found s' = found s @ added_items (length (found s)) (data r)
         \<and> count s' = total_n r \<and> loadedPages s' = f_page f
         \<and> morePages s' = more_flag r"
    using complete_accepted[of f s opts r] by auto
next
  assume a: "loadedPages s = 0 \<and> cachedResults s (join (terms s)) = Some (lp, fnd, n, m)
             \<and> 0 < lp"
  let ?c = "(lp, fnd, n, m)"
  have "0 < fst ?c" using a by simp
  from loadNextPage_restores[OF conjunct1[OF a] conjunct1[OF conjunct2[OF a]] this, of opts]
  obtain res where 1: "loadNextPage opts s = Some res"
    and 2: "results_kept (restore ?c s) (st res)"
    and 3: "searches (st res) =
               (if (\<exists>s'. render opts (restore ?c s) = Inr s') \<and> lastVisible opts (restore ?c s)
                   \<and> ident (terms s) \<notin> loadingNextPage s
                then searches s @ [next_fetch (restore ?c s)] else searches s)"
    by blast
  have lv: "lastVisible opts (restore ?c s)
            = (truthy (opt_search opts) \<and> start s + opt_size opts \<ge> int (length fnd) \<and> m)"
    by (simp add: lastVisible_def restore_def)
  have nf: "next_fetch (restore ?c s)
            = \<lparr>f_terms = ident (terms s), f_query = join (terms s), f_page = lp + 1\<rparr>"
    by (simp add: next_fetch_def restore_def)
  show "\<exists>res. loadNextPage opts s = Some res
         \<and> loadedPages (st res) = lp \<and> found (st res) = fnd \<and> count (st res) = n
         \<and> morePages (st res) = m
         \<and> searches (st res) =
             (if (\<exists>s'. render opts (restore (lp, fnd, n, m) s) = Inr s')
                 \<and> truthy (opt_search opts)
                 \<and> start s + opt_size opts \<ge> int (length fnd) \<and> m
                 \<and> ident (terms s) \<notin> loadingNextPage s
              then searches s @
                     [\<lparr>f_terms = ident (terms s), f_query = join (terms s), f_page = lp + 1\<rparr>]
              else searches s)"
    using 1 2 3 unfolding lv nf by (auto simp add: results_kept_def restore_def)
qed

theorem C4_restore_then_fetch_counterexample:
  "cache search_opts \<and> reachable search_opts keep_all retyped3 \<and> timer retyped3 \<noteq> None
   \<and> filterDataset search_opts keep_all (retyped3\<lparr>timer := None\<rparr>)
       = loadNextPage search_opts reentry
   \<and> loadedPages reentry = 0
   \<and> cachedResults reentry (join (terms reentry)) = Some (1, five, 12, True)
   \<and> map_option (searches \<circ> st) (loadNextPage search_opts reentry)
       = Some (searches reentry @ [\<lparr>f_terms = 6, f_query = [], f_page = 2\<rparr>])"
proof -
  let ?c = "(1::nat, five, 12::nat, True)"
  have a: "terms reentry = \<lparr>ident = 6, elems = []\<rparr>" "start reentry = 0" "found reentry = []"
    "loadedPages reentry = 0" "cachedResults reentry = [[] \<mapsto> ?c]"
    "loadingNextPage reentry = loadingNextPage retyped3" "dataset reentry = None"
    using retyped3(2) by (simp_all add: reentry_def at_state_def retyped3(3))
  have c: "cachedResults reentry (join (terms reentry)) = Some ?c"
    by (simp add: a join_def)
  have fd: "filterDataset search_opts keep_all (retyped3\<lparr>timer := None\<rparr>)
            = loadNextPage search_opts reentry"
    by (simp add: filterDataset_def Let_def search_opts_def reentry_def)
  have "\<forall>r \<in> set (found (restore ?c reentry)). index r < count (restore ?c reentry)"
    using five_rows(2) by (simp add: restore_def)
  then have ok: "\<exists>s'. render search_opts (restore ?c reentry) = Inr s'"
    by (rule render_fit)
  have lv: "lastVisible search_opts (restore ?c reentry)"
    by (simp add: lastVisible_def restore_def search_opts_def five_rows a)
  have nf: "ident (terms reentry) \<notin> loadingNextPage reentry"
    using retyped3(5) by (auto simp add: a)
  from loadNextPage_restores[OF a(4) c, of search_opts]
  obtain r where "loadNextPage search_opts reentry = Some r"
    and "searches (st r) = searches reentry @ [next_fetch (restore ?c reentry)]"
    using ok lv nf by auto
  then show ?thesis
    using c fd a(4) retyped3(1,4)
    by (simp add: next_fetch_def restore_def a join_def) (simp add: search_opts_def)
qed

theorem C4_cache_round_trip_witness:
  "(cache search_opts \<and> f_terms fetch_a3 = ident (terms reentered_a) \<and> 0 < f_page fetch_a3)
   \<and> (\<exists>s'. complete search_opts fetch_a3 page_a reentered_a = Some s'
         \<and> cachedResults s' (f_query fetch_a3)
             = Some (loadedPages s', found s', count s', morePages s')
         \<and> found s' = found reentered_a @ added_items (length (found reentered_a)) (data page_a)
         \<and> count s' = total_n page_a \<and> loadedPages s' = f_page fetch_a3
         \<and> morePages s' = more_flag page_a)
   \<and> (loadedPages reentered_a = 0
       \<and> cachedResults reentered_a (join (terms reentered_a)) = Some (1, five, 12, True)
       \<and> 0 < (1::nat))
   \<and> (\<exists>res. loadNextPage search_opts reentered_a = Some res
         \<and> loadedPages (st res) = 1 \<and> found (st res) = five \<and> count (st res) = 12
         \<and> morePages (st res) = True)"
proof -
  have a: "cache search_opts \<and> f_terms fetch_a3 = ident (terms reentered_a)
           \<and> 0 < f_page fetch_a3"
    by (simp add: search_opts_def fetch_a3_def reentered_a_def)
  have b: "loadedPages reentered_a = 0
       \<and> cachedResults reentered_a (join (terms reentered_a)) = Some (1, five, 12, True)
       \<and> 0 < (1::nat)"
    by (simp add: reentered_a_def initial_def join_def)
  show ?thesis
    using a b
      C4_cache_round_trip [of search_opts fetch_a3 reentered_a page_a 1 five 12 True]
    by blast
qed

text \<open>
  C5, as the code has it. Every move in a session sets \<open>line\<close> to
  \<open>clamp(0, found.length - 1, line + deltaLine + deltaPage * size)\<close>. It keeps
  \<open>0 <= start\<close> and \<open>start <= line < start + size\<close> when, before the move, \<open>line\<close>
  was moreover a row of the list (\<open>line < found.length\<close>, or \<open>line = 0\<close> on an empty list),
  as the viewport invariant of the data model has it. Without that, the move can leave
  \<open>line\<close> below \<open>start\<close>: in a session with both \<open>data\<close> and \<open>search\<close> the display
  update restores a cached page that is shorter than the list the cursor was in
  (\<open>mixed9\<close>), and the next move down clamps \<open>line\<close> to the last row of the short
  list while \<open>start\<close> stays.
\<close>

theorem C5_move_keeps_viewport:
  assumes "reachable opts fuzzy s"
  shows "\<exists>r. onChangeLine opts dline dpage s = Some r
           \<and> line (st r) = max 0 (min (int (length (found s)) - 1)
                                      (line s + dline + dpage * opt_size opts))
           \<and> (0 \<le> start s \<and> start s \<le> line s \<and> line s < start s + opt_size opts
                \<and> (line s < int (length (found s)) \<or> (found s = [] \<and> line s = 0))
              \<longrightarrow> 0 \<le> start (st r) \<and> start (st r) \<le> line (st r)
                  \<and> line (st r) < start (st r) + opt_size opts)"
proof -
  let ?m = "moveLine opts dline dpage s"
  have "cached_page_ok s" using assms by (rule reachable_cached_page_ok)
  then have "cached_page_ok ?m"
    by (simp add: cached_page_ok_cong[of ?m s] moveLine_fields)
  from updateList_steady[OF this, of opts]
  obtain r where r: "updateList opts ?m = Some r" and s: "steady ?m (st r)" by blast
  from s have ls: "line (st r) = line ?m" "start (st r) = start ?m"
    by (simp_all add: steady_def)
  have "0 \<le> start (st r) \<and> start (st r) \<le> line (st r)
        \<and> line (st r) < start (st r) + opt_size opts"
    if "0 \<le> start s \<and> start s \<le> line s \<and> line s < start s + opt_size opts
        \<and> (line s < int (length (found s)) \<or> (found s = [] \<and> line s = 0))"
    unfolding ls using that moveLine_viewport[of s opts dline dpage] by blast
  then show ?thesis
    using r ls(1) by (simp add: onChangeLine_def moveLine_fields)
qed

theorem C5_line_below_start_counterexample:
  "reachable mixed_opts keep_all mixed9
   \<and> emit mixed_opts 3000 (Line 15 0) mixed8 = Some (Inr mixed9)
   \<and> 0 \<le> start mixed9 \<and> start mixed9 \<le> line mixed9
   \<and> line mixed9 < start mixed9 + opt_size mixed_opts
   \<and> length (found mixed9) = 5 \<and> line mixed9 = 15 \<and> start mixed9 = 6
   \<and> map_option (line \<circ> st) (onChangeLine mixed_opts 1 0 mixed9) = Some 4
   \<and> map_option (start \<circ> st) (onChangeLine mixed_opts 1 0 mixed9) = Some 6"
proof -
  let ?m = "moveLine mixed_opts 1 0 mixed9"
  have l: "line ?m = 4"
    by (simp add: moveLine_fields mixed9 five_rows mixed_opts_fields)
  have s: "start ?m = 6"
    unfolding moveLine_start l by (simp add: mixed9 mixed_opts_fields)
  have "0 < loadedPages ?m" by (simp add: moveLine_fields mixed9)
  from updateList_loaded_frame[OF this, of mixed_opts]
  obtain r where "updateList mixed_opts ?m = Some r" "steady ?m (st r)" by blast
  then show ?thesis
    using l s by (simp add: onChangeLine_def steady_def mixed9 mixed_opts_fields five_rows)
qed

theorem C5_move_keeps_viewport_witness:
  "reachable search_opts keep_all shown_five
   \<and> 0 \<le> start shown_five \<and> start shown_five \<le> line shown_five
   \<and> line shown_five < start shown_five + opt_size search_opts
   \<and> line shown_five < int (length (found shown_five))
   \<and> (\<exists>r. onChangeLine search_opts 1 1 shown_five = Some r
          \<and> line (st r) = 4 \<and> 0 \<le> start (st r) \<and> start (st r) \<le> line (st r)
          \<and> line (st r) < start (st r) + opt_size search_opts)
   \<and> reachable mixed_opts keep_all mixed9
   \<and> (\<exists>r. onChangeLine mixed_opts 1 0 mixed9 = Some r \<and> line (st r) = 4)"
proof -
  note a = shown_five(1)
  have b: "0 \<le> start shown_five \<and> start shown_five \<le> line shown_five
           \<and> line shown_five < start shown_five + opt_size search_opts
           \<and> (line shown_five < int (length (found shown_five))
               \<or> (found shown_five = [] \<and> line shown_five = 0))"
    by (simp add: shown_five search_opts_def five_def)
  have f: "max 0 (min (int (length (found shown_five)) - 1)
                      (line shown_five + 1 + 1 * opt_size search_opts)) = 4"
    by (simp add: shown_five search_opts_def five_def)
  have g: "max 0 (min (int (length (found mixed9)) - 1)
                      (line mixed9 + 1 + 0 * opt_size mixed_opts)) = 4"
    by (simp add: mixed9 five_def)
  from C5_move_keeps_viewport [OF a, of 1 1]
  obtain r where r: "onChangeLine search_opts 1 1 shown_five = Some r"
    and l: "line (st r) = max 0 (min (int (length (found shown_five)) - 1)
                      (line shown_five + 1 + 1 * opt_size search_opts))"
    and v: "0 \<le> start shown_five \<and> start shown_five \<le> line shown_five
           \<and> line shown_five < start shown_five + opt_size search_opts
           \<and> (line shown_five < int (length (found shown_five))
               \<or> (found shown_five = [] \<and> line shown_five = 0))
           \<longrightarrow> 0 \<le> start (st r) \<and> start (st r) \<le> line (st r)
               \<and> line (st r) < start (st r) + opt_size search_opts"
    by blast
  from v b have "0 \<le> start (st r) \<and> start (st r) \<le> line (st r)
               \<and> line (st r) < start (st r) + opt_size search_opts"
    by (rule mp)
  then have 1: "\<exists>r. onChangeLine search_opts 1 1 shown_five = Some r
          \<and> line (st r) = 4 \<and> 0 \<le> start (st r) \<and> start (st r) \<le> line (st r)
          \<and> line (st r) < start (st r) + opt_size search_opts"
    using r l unfolding f by blast
  from C5_move_keeps_viewport [OF mixed9(1), of 1 0]
  have 2: "\<exists>r. onChangeLine mixed_opts 1 0 mixed9 = Some r \<and> line (st r) = 4"
    unfolding g by blast
  have 3: "line shown_five < int (length (found shown_five))"
    by (simp add: shown_five five_def)
  show ?thesis using a b 1 2 3 mixed9(1) by blast
qed

text \<open>
  C6. A page that arrives in a session for the current terms object gives its items the
  ranks \<open>found.length, found.length + 1, ...\<close> in the order of the page, whatever they
  came with, and appends them: the items that were there stay as they are, with their
  ranks, and when the ranks of the list were dense those of the longer list are. So the
  ranks of \<open>found\<close> are \<open>0 .. found.length - 1\<close> in the order of display in every state
  of a session. In a session with \<open>data\<close> the list also comes from \<open>fuzzy\<close>, whose
  ranks \<open>main.js\<close> displays and never writes: there the ranks are dense when those of
  the lists that \<open>fuzzy\<close> returns are.
\<close>

theorem C6_dense_index:
  assumes "reachable opts fuzzy s"
  shows "((truthy (opt_data opts) \<longrightarrow> (\<forall>ds ts. dense (fuzzy ds ts))) \<longrightarrow> dense (found s))
       \<and> (f \<in> set (searches s) \<and> f_terms f = ident (terms s) \<longrightarrow>
            (\<exists>s'. complete opts f r s = Some s'
               \<and> found s' = found s @ added_items (length (found s)) (data r)
               \<and> map index (added_items (length (found s)) (data r))
                   = [length (found s) ..< length (found s) + length (data r)]
               \<and> take (length (found s)) (found s') = found s
               \<and> (dense (found s) \<longrightarrow> dense (found s'))))"
proof -
  have d: "dense (found s)" if "truthy (opt_data opts) \<longrightarrow> (\<forall>ds ts. dense (fuzzy ds ts))"
    using reachable_all_dense[OF assms that] by (simp add: all_dense_def)
  have "\<exists>s'. complete opts f r s = Some s'
               \<and> found s' = found s @ added_items (length (found s)) (data r)
               \<and> map index (added_items (length (found s)) (data r))
                   = [length (found s) ..< length (found s) + length (data r)]
               \<and> take (length (found s)) (found s') = found s
               \<and> (dense (found s) \<longrightarrow> dense (found s'))"
    if f: "f \<in> set (searches s) \<and> f_terms f = ident (terms s)"
  proof -
    have "0 < f_page f"
      using reachable_pages_pos[OF assms] f by (simp add: pages_pos_def)
    with f complete_accepted[of f s opts r]
    obtain s' where "complete opts f r s = Some s'"
      and "found s' = found s @ added_items (length (found s)) (data r)"
      by blast
    then show ?thesis
      using dense_added(1)[of "found s" "data r"] by (simp add: added_items_index)
  qed
  with d show ?thesis by blast
qed

theorem C6_dense_index_witness:
  "reachable search_opts keep_all shown_five \<and> found shown_five = five
   \<and> dense (found shown_five)
   \<and> fetch_second \<in> set (searches shown_five)
   \<and> f_terms fetch_second = ident (terms shown_five)
   \<and> map index (data page_next) = [0, 0]
   \<and> (\<exists>s'. complete search_opts fetch_second page_next shown_five = Some s'
          \<and> found s' = five @ added_items 5 (data page_next)
          \<and> map index (added_items 5 (data page_next)) = [5, 6]
          \<and> take 5 (found s') = five \<and> dense (found s'))
   \<and> truthy (opt_data mixed_opts) \<and> (\<forall>ds ts. dense (keep_all ds ts))
   \<and> reachable mixed_opts keep_all mixed6 \<and> found mixed6 = sixteen
   \<and> dense (found mixed6)
   \<and> fetch_b \<in> set (searches mixed6) \<and> f_terms fetch_b = ident (terms mixed6)
   \<and> (\<exists>s'. complete mixed_opts fetch_b page_next mixed6 = Some s'
          \<and> found s' = sixteen @ added_items 16 (data page_next)
          \<and> map index (added_items 16 (data page_next)) = [16, 17]
          \<and> take 16 (found s') = sixteen \<and> dense (found s'))"
proof -
  have k: "\<forall>ds ts. dense (keep_all ds ts)" by (simp add: keep_all_dense)
  have h1: "truthy (opt_data search_opts) \<longrightarrow> (\<forall>ds ts. dense (keep_all ds ts))"
    and h2: "truthy (opt_data mixed_opts) \<longrightarrow> (\<forall>ds ts. dense (keep_all ds ts))"
    using k by simp_all
  have t1: "found shown_five = five" "length five = 5"
    and c1: "fetch_second \<in> set (searches shown_five)
             \<and> f_terms fetch_second = ident (terms shown_five)"
    using shown_five_at(1,4) by (simp_all add: at_state_def fetch_second_def five_rows)
  have t2: "found mixed6 = sixteen" "length sixteen = 16"
    and c2: "fetch_b \<in> set (searches mixed6) \<and> f_terms fetch_b = ident (terms mixed6)"
    using mixed6(2,4) by (simp_all add: at_state_def fetch_b_def sixteen_rows)
  have p: "map index (data page_next) = [0, 0]" "length (data page_next) = 2"
    by (simp_all add: page_next_def apple_def)
  note A = C6_dense_index [OF shown_five(1), of fetch_second page_next]
  note B = C6_dense_index [OF mixed6(1), of fetch_b page_next]
  from A have d1: "dense (found shown_five)" using h1 by blast
  from B have d2: "dense (found mixed6)" using h2 by blast
  from A c1 d1 obtain s1 where s1: "complete search_opts fetch_second page_next shown_five = Some s1"
    "found s1 = found shown_five @ added_items (length (found shown_five)) (data page_next)"
    "map index (added_items (length (found shown_five)) (data page_next))
       = [length (found shown_five) ..< length (found shown_five) + length (data page_next)]"
    "take (length (found shown_five)) (found s1) = found shown_five" "dense (found s1)"
    by blast
  from B c2 d2 obtain s2 where s2: "complete mixed_opts fetch_b page_next mixed6 = Some s2"
    "found s2 = found mixed6 @ added_items (length (found mixed6)) (data page_next)"
    "map index (added_items (length (found mixed6)) (data page_next))
       = [length (found mixed6) ..< length (found mixed6) + length (data page_next)]"
    "take (length (found mixed6)) (found s2) = found mixed6" "dense (found s2)"
    by blast
  have u1: "[5 ..< 5 + 2] = [5, Suc 5]" and u2: "[16 ..< 16 + 2] = [16, Suc 16]"
    by (simp_all add: upt_rec)
  have 1: "\<exists>s'. complete search_opts fetch_second page_next shown_five = Some s'
          \<and> found s' = five @ added_items 5 (data page_next)
          \<and> map index (added_items 5 (data page_next)) = [5, 6]
          \<and> take 5 (found s') = five \<and> dense (found s')"
    using s1 unfolding t1 p u1 by simp
  have 2: "\<exists>s'. complete mixed_opts fetch_b page_next mixed6 = Some s'
          \<and> found s' = sixteen @ added_items 16 (data page_next)
          \<and> map index (added_items 16 (data page_next)) = [16, 17]
          \<and> take 16 (found s') = sixteen \<and> dense (found s')"
    using s2 unfolding t2 p u2 by simp
  show ?thesis
    using shown_five(1) t1(1) d1 c1 p(1) 1 mixed_opts_fields(1) k mixed6(1) t2(1) d2 c2 2
    by blast
qed



text \<open>
  C8. In search mode, once \<open>updateList\<close> has drawn its rows: if
  \<open>start + size >= found.length\<close> and \<open>morePages\<close> hold, it calls \<open>loadNextPage\<close> on
  the state it has drawn, with no input event involved, and when a page is already loaded
  and no fetch is in flight for the terms object that call asks the search collaborator
  for the next page; if one of the two conditions fails, \<open>updateList\<close> returns what it has
  drawn, with no call to the collaborator and no new in-flight mark.
\<close>

theorem C8_auto_pagination:
  assumes "truthy (opt_search opts)" "render opts s = Inr s'"
  shows "(int (length (found s)) \<le> start s + opt_size opts \<and> morePages s \<longrightarrow>
            updateList opts s = loadNextPage opts s'
            \<and> (0 < loadedPages s \<and> ident (terms s) \<notin> loadingNextPage s \<longrightarrow>
                 (\<exists>s2. updateList opts s = Some (Inr s2)
                    \<and> searches s2 = searches s @ [next_fetch s]
                    \<and> ident (terms s) \<in> loadingNextPage s2)))
       \<and> (\<not> (int (length (found s)) \<le> start s + opt_size opts \<and> morePages s) \<longrightarrow>
            updateList opts s = Some (Inr s') \<and> searches s' = searches s
            \<and> loadingNextPage s' = loadingNextPage s)"
proof -
  have rd: "redrawn s s'" using render_redrawn[of s opts] assms(2) by simp
  have lv: "lastVisible opts s'
            = (int (length (found s)) \<le> start s + opt_size opts \<and> morePages s)"
    using assms(1) rd by (simp add: lastVisible_def redrawn_fields)
  have u: "updateList opts s = (if lastVisible opts s' then loadNextPage opts s'
                                else Some (Inr s'))"
    using assms(2) by (simp add: updateList_def)
  have ask: "\<exists>s2. updateList opts s = Some (Inr s2)
                    \<and> searches s2 = searches s @ [next_fetch s]
                    \<and> ident (terms s) \<in> loadingNextPage s2"
    if "lastVisible opts s'" "0 < loadedPages s" "ident (terms s) \<notin> loadingNextPage s"
  proof -
    have "loadedPages s' \<noteq> 0" using rd that(2) by (simp add: redrawn_fields)
    then have "loadNextPage opts s' = Some (Inr (requestPage s'))"
      by (simp add: loadNextPage_miss)
    then have "updateList opts s = Some (Inr (requestPage s'))" using u that(1) by simp
    moreover have "searches (requestPage s') = searches s @ [next_fetch s]"
      using rd that(3) by (simp add: requestPage_searches redrawn_fields redrawn_next_fetch)
    moreover have "ident (terms s) \<in> loadingNextPage (requestPage s')"
      using rd by (simp add: requestPage_loading redrawn_fields)
    ultimately show ?thesis by blast
  qed
  show ?thesis using u lv ask rd by (auto simp add: redrawn_fields)
qed

theorem C8_auto_pagination_witness:
  "truthy (opt_search search_opts)
   \<and> (\<exists>s'. render search_opts loaded_a = Inr s'
         \<and> int (length (found loaded_a)) \<le> start loaded_a + opt_size search_opts
         \<and> morePages loaded_a
         \<and> updateList search_opts loaded_a = loadNextPage search_opts s'
         \<and> 0 < loadedPages loaded_a \<and> ident (terms loaded_a) \<notin> loadingNextPage loaded_a
         \<and> (\<exists>s2. updateList search_opts loaded_a = Some (Inr s2)
                \<and> searches s2 = searches loaded_a @ [next_fetch loaded_a]
                \<and> ident (terms loaded_a) \<in> loadingNextPage s2))
   \<and> (\<exists>s'. render search_opts all_loaded_a = Inr s'
         \<and> \<not> (int (length (found all_loaded_a))
                 \<le> start all_loaded_a + opt_size search_opts
               \<and> morePages all_loaded_a)
         \<and> updateList search_opts all_loaded_a = Some (Inr s')
         \<and> searches s' = searches all_loaded_a
         \<and> loadingNextPage s' = loadingNextPage all_loaded_a)"
proof -
  have t: "truthy (opt_search search_opts)" by (simp add: search_opts_def)
  have "\<forall>r \<in> set (found loaded_a). index r < count loaded_a"
    by (simp add: loaded_a_def restore_def five_def row_def)
  then obtain s1 where r1: "render search_opts loaded_a = Inr s1"
    using render_fit by blast
  have "\<forall>r \<in> set (found all_loaded_a). index r < count all_loaded_a"
    by (simp add: all_loaded_a_def restore_def five_def row_def)
  then obtain s2 where r2: "render search_opts all_loaded_a = Inr s2"
    using render_fit by blast
  have c1: "int (length (found loaded_a)) \<le> start loaded_a + opt_size search_opts
            \<and> morePages loaded_a \<and> 0 < loadedPages loaded_a
            \<and> ident (terms loaded_a) \<notin> loadingNextPage loaded_a"
    by (simp add: loaded_a_def restore_def five_def reentered_a_def initial_def
        search_opts_def)
  have c2: "\<not> (int (length (found all_loaded_a))
                 \<le> start all_loaded_a + opt_size search_opts
               \<and> morePages all_loaded_a)"
    by (simp add: all_loaded_a_def restore_def)
  show ?thesis
    using t r1 r2 c1 c2 C8_auto_pagination [OF t r1] C8_auto_pagination [OF t r2]
    by blast
qed

text \<open>
  C9, as the code has it. The two guards test \<open>data\<close> and \<open>search\<close> for a truthy value.
  The constructor returns a promise that is already rejected with a configuration error,
  with nothing written to the terminal, \<open>stdin\<close> not configured, no listener attached and
  no call to the search collaborator, exactly when \<open>data\<close> and \<open>search\<close> are both falsy,
  or \<open>search\<close> is truthy and \<open>typeof search\<close> is not \<open>function\<close>; the error tells
  which of the two it was. A \<open>search\<close> that is given with a falsy value is not refused when
  \<open>data\<close> is truthy. With every other configuration the guards let the constructor go
  on, and it still returns a rejected promise, with \<open>stdin\<close> not configured and no
  listener attached, in two cases: when \<open>size\<close> is negative or beyond the longest string
  (a \<open>RangeError\<close>, before anything is written), and else when \<open>stdin\<close> is not a TTY
  stream (a \<open>TypeError\<close>, after the prompt was written). Otherwise it returns with the
  promise pending, \<open>stdin\<close> configured and the listeners attached.
\<close>

theorem C9_configuration_errors:
  "\<exists>s. construct opts = Some s
     \<and> (settled s = Some (Rejected RequiredOption)
          \<longleftrightarrow> \<not> truthy (opt_data opts) \<and> \<not> truthy (opt_search opts))
     \<and> (settled s = Some (Rejected (SearchNotFunction (typeof (opt_search opts))))
          \<longleftrightarrow> truthy (opt_search opts) \<and> typeof (opt_search opts) \<noteq> ''function'')
     \<and> (settled s = Some (Rejected RequiredOption)
          \<or> settled s = Some (Rejected (SearchNotFunction (typeof (opt_search opts))))
          \<longrightarrow> \<not> stdin_raw s \<and> \<not> listeners s \<and> drafts s = [] \<and> searches s = [])
     \<and> (settled s = Some (Rejected RangeError)
          \<longleftrightarrow> \<not> (\<not> truthy (opt_data opts) \<and> \<not> truthy (opt_search opts))
              \<and> \<not> (truthy (opt_search opts) \<and> typeof (opt_search opts) \<noteq> ''function'')
              \<and> (opt_size opts < 0 \<or> int (maxStringLength opts) < opt_size opts))
     \<and> (settled s = Some (Rejected RangeError) \<longrightarrow> drafts s = [])
     \<and> (settled s = Some (Rejected TypeError)
          \<longleftrightarrow> \<not> (\<not> truthy (opt_data opts) \<and> \<not> truthy (opt_search opts))
              \<and> \<not> (truthy (opt_search opts) \<and> typeof (opt_search opts) \<noteq> ''function'')
              \<and> 0 \<le> opt_size opts \<and> opt_size opts \<le> int (maxStringLength opts)
              \<and> \<not> stdin_isTTY opts)
     \<and> (settled s = Some (Rejected TypeError)
          \<longrightarrow> drafts s = [UpdateInput (styled Dim (plain ''Enter your search''))])
     \<and> (settled s \<noteq> None \<longrightarrow> \<not> stdin_raw s \<and> \<not> listeners s \<and> searches s = [])
     \<and> (settled s = None
          \<longleftrightarrow> \<not> (\<not> truthy (opt_data opts) \<and> \<not> truthy (opt_search opts))
              \<and> \<not> (truthy (opt_search opts) \<and> typeof (opt_search opts) \<noteq> ''function'')
              \<and> 0 \<le> opt_size opts \<and> opt_size opts \<le> int (maxStringLength opts)
              \<and> stdin_isTTY opts)
     \<and> (settled s = None \<longrightarrow> stdin_raw s \<and> listeners s)"
proof -
  let ?s1 = "initial\<lparr>drafts := [UpdateInput (styled Dim (plain ''Enter your search''))]\<rparr>"
  consider (none) "\<not> truthy (opt_data opts) \<and> \<not> truthy (opt_search opts)"
    | (bad) "truthy (opt_search opts) \<and> typeof (opt_search opts) \<noteq> ''function''"
    | (range) "\<not> (\<not> truthy (opt_data opts) \<and> \<not> truthy (opt_search opts))"
        "\<not> (truthy (opt_search opts) \<and> typeof (opt_search opts) \<noteq> ''function'')"
        "opt_size opts < 0 \<or> int (maxStringLength opts) < opt_size opts"
    | (notty) "\<not> (\<not> truthy (opt_data opts) \<and> \<not> truthy (opt_search opts))"
        "\<not> (truthy (opt_search opts) \<and> typeof (opt_search opts) \<noteq> ''function'')"
        "0 \<le> opt_size opts \<and> opt_size opts \<le> int (maxStringLength opts)"
        "\<not> stdin_isTTY opts"
    | (data) "truthy (opt_data opts)"
        "\<not> (truthy (opt_search opts) \<and> typeof (opt_search opts) \<noteq> ''function'')"
        "0 \<le> opt_size opts \<and> opt_size opts \<le> int (maxStringLength opts)"
        "stdin_isTTY opts"
    | (search) "\<not> truthy (opt_data opts)" "typeof (opt_search opts) = ''function''"
        "0 \<le> opt_size opts \<and> opt_size opts \<le> int (maxStringLength opts)"
        "stdin_isTTY opts"
    by force
  then show ?thesis
  proof cases
    case none
    then have "construct opts = Some (initial\<lparr>settled := Some (Rejected RequiredOption)\<rparr>)"
      by (simp add: construct_def)
    then show ?thesis using none by (simp add: initial_def)
  next
    case bad
    then have "construct opts = Some (initial\<lparr>settled :=
                   Some (Rejected (SearchNotFunction (typeof (opt_search opts))))\<rparr>)"
      by (simp add: construct_def)
    then show ?thesis using bad by (simp add: initial_def)
  next
    case range
    then have "construct opts = Some (initial\<lparr>settled := Some (Rejected RangeError)\<rparr>)"
      by (cases "truthy (opt_search opts)") (simp_all add: construct_def)
    then show ?thesis using range by (auto simp add: initial_def)
  next
    case notty
    then have "construct opts = Some (?s1\<lparr>settled := Some (Rejected TypeError)\<rparr>)"
      by (cases "truthy (opt_search opts)") (simp_all add: construct_def Let_def)
    then show ?thesis using notty by (auto simp add: initial_def)
  next
    case data
    let ?s2 = "initial\<lparr>drafts := [UpdateInput (styled Dim (plain ''Enter your search''))],
                       stdin_raw := True\<rparr>"
    have "redrawn ?s2 (updateStatus None (Some True) ?s2)" by (rule updateStatus_redrawn)
    then have f: "settled (updateStatus None (Some True) ?s2) = None"
      "stdin_raw (updateStatus None (Some True) ?s2)"
      by (simp_all add: redrawn_fields) (simp add: initial_def)
    have "construct opts = Some ((updateStatus None (Some True) ?s2)\<lparr>listeners := True\<rparr>)"
      using data by (cases "truthy (opt_search opts)") (simp_all add: construct_def Let_def)
    then show ?thesis using data f by auto
  next
    case search
    from construct_search[OF search(1,2) conjunct1[OF search(3)] conjunct2[OF search(3)]
        search(4)]
    obtain s where "construct opts = Some s" "settled s = None" "stdin_raw s" "listeners s"
      by blast
    then show ?thesis using search function_truthy[OF search(2)] by auto
  qed
qed

theorem C9_falsy_search_accepted_counterexample:
  "opt_data falsy_search_opts = Object \<and> opt_search falsy_search_opts = Boolean False
   \<and> typeof (opt_search falsy_search_opts) = ''boolean''
   \<and> map_option settled (construct falsy_search_opts) = Some None
   \<and> map_option listeners (construct falsy_search_opts) = Some True
   \<and> opt_search negative_size_opts = Function \<and> opt_size negative_size_opts = - 1
   \<and> map_option settled (construct negative_size_opts) = Some (Some (Rejected RangeError))
   \<and> opt_search piped_opts = Function \<and> opt_size piped_opts = 10
   \<and> map_option settled (construct piped_opts) = Some (Some (Rejected TypeError))"
  by (simp add: construct_def falsy_search_opts_def negative_size_opts_def piped_opts_def
      search_opts_def Let_def updateStatus_def initial_def)

theorem C9_configuration_errors_witness:
  "(\<exists>s. construct no_opts = Some s \<and> settled s = Some (Rejected RequiredOption)
        \<and> \<not> stdin_raw s \<and> \<not> listeners s \<and> drafts s = [] \<and> searches s = [])
   \<and> (\<exists>s. construct bad_search_opts = Some s
        \<and> settled s = Some (Rejected (SearchNotFunction ''string''))
        \<and> \<not> stdin_raw s \<and> \<not> listeners s \<and> drafts s = [] \<and> searches s = [])
   \<and> (\<exists>s. construct negative_size_opts = Some s \<and> settled s = Some (Rejected RangeError)
        \<and> \<not> stdin_raw s \<and> \<not> listeners s \<and> drafts s = [] \<and> searches s = [])
   \<and> (\<exists>s. construct huge_size_opts = Some s \<and> settled s = Some (Rejected RangeError)
        \<and> \<not> stdin_raw s \<and> \<not> listeners s \<and> drafts s = [] \<and> searches s = [])
   \<and> (\<exists>s. construct piped_opts = Some s \<and> settled s = Some (Rejected TypeError)
        \<and> \<not> stdin_raw s \<and> \<not> listeners s \<and> searches s = []
        \<and> drafts s = [UpdateInput (styled Dim (plain ''Enter your search''))])
   \<and> (\<exists>s. construct search_opts = Some s \<and> settled s = None \<and> stdin_raw s \<and> listeners s)
   \<and> (\<exists>s. construct data_opts = Some s \<and> settled s = None \<and> stdin_raw s \<and> listeners s)
   \<and> (\<exists>s. construct falsy_search_opts = Some s \<and> settled s = None \<and> stdin_raw s
        \<and> listeners s)"
proof -
  have a: "\<not> truthy (opt_data no_opts) \<and> \<not> truthy (opt_search no_opts)"
    by (simp add: no_opts_def search_opts_def)
  have b: "truthy (opt_search bad_search_opts)
           \<and> typeof (opt_search bad_search_opts) = ''string''"
    by (simp add: bad_search_opts_def search_opts_def)
  have c: "\<not> truthy (opt_data search_opts) \<and> typeof (opt_search search_opts) = ''function''
           \<and> truthy (opt_search search_opts) \<and> 0 \<le> opt_size search_opts
           \<and> opt_size search_opts \<le> int (maxStringLength search_opts)
           \<and> stdin_isTTY search_opts"
    by (simp add: search_opts_def)
  have d: "truthy (opt_data data_opts) \<and> \<not> truthy (opt_search data_opts)
           \<and> 0 \<le> opt_size data_opts \<and> opt_size data_opts \<le> int (maxStringLength data_opts)
           \<and> stdin_isTTY data_opts"
    by (simp add: data_opts_def search_opts_def)
  have e: "truthy (opt_data falsy_search_opts) \<and> \<not> truthy (opt_search falsy_search_opts)
           \<and> 0 \<le> opt_size falsy_search_opts
           \<and> opt_size falsy_search_opts \<le> int (maxStringLength falsy_search_opts)
           \<and> stdin_isTTY falsy_search_opts"
    by (simp add: falsy_search_opts_def search_opts_def)
  have f: "\<not> truthy (opt_data negative_size_opts)
           \<and> typeof (opt_search negative_size_opts) = ''function''
           \<and> truthy (opt_search negative_size_opts) \<and> opt_size negative_size_opts < 0"
    by (simp add: negative_size_opts_def search_opts_def)
  have g: "\<not> truthy (opt_data huge_size_opts)
           \<and> typeof (opt_search huge_size_opts) = ''function''
           \<and> truthy (opt_search huge_size_opts)
           \<and> int (maxStringLength huge_size_opts) < opt_size huge_size_opts"
    by (simp add: huge_size_opts_def search_opts_def)
  have h: "\<not> truthy (opt_data piped_opts) \<and> typeof (opt_search piped_opts) = ''function''
           \<and> truthy (opt_search piped_opts) \<and> 0 \<le> opt_size piped_opts
           \<and> opt_size piped_opts \<le> int (maxStringLength piped_opts)
           \<and> \<not> stdin_isTTY piped_opts"
    by (simp add: piped_opts_def search_opts_def)
  have 1: "\<exists>s. construct no_opts = Some s \<and> settled s = Some (Rejected RequiredOption)
        \<and> \<not> stdin_raw s \<and> \<not> listeners s \<and> drafts s = [] \<and> searches s = []"
    using a C9_configuration_errors [of no_opts] by force
  have 2: "\<exists>s. construct bad_search_opts = Some s
        \<and> settled s = Some (Rejected (SearchNotFunction ''string''))
        \<and> \<not> stdin_raw s \<and> \<not> listeners s \<and> drafts s = [] \<and> searches s = []"
    using b C9_configuration_errors [of bad_search_opts] by force
  have 3: "\<exists>s. construct search_opts = Some s \<and> settled s = None \<and> stdin_raw s
        \<and> listeners s"
    using c C9_configuration_errors [of search_opts] by force
  have 4: "\<exists>s. construct data_opts = Some s \<and> settled s = None \<and> stdin_raw s
        \<and> listeners s"
    using d C9_configuration_errors [of data_opts] by force
  have 5: "\<exists>s. construct falsy_search_opts = Some s \<and> settled s = None \<and> stdin_raw s
        \<and> listeners s"
    using e C9_configuration_errors [of falsy_search_opts] by force
  have 6: "\<exists>s. construct negative_size_opts = Some s
        \<and> settled s = Some (Rejected RangeError)
        \<and> \<not> stdin_raw s \<and> \<not> listeners s \<and> drafts s = [] \<and> searches s = []"
    using f C9_configuration_errors [of negative_size_opts] by force
  have 7: "\<exists>s. construct huge_size_opts = Some s \<and> settled s = Some (Rejected RangeError)
        \<and> \<not> stdin_raw s \<and> \<not> listeners s \<and> drafts s = [] \<and> searches s = []"
    using g C9_configuration_errors [of huge_size_opts] by force
  have 8: "\<exists>s. construct piped_opts = Some s \<and> settled s = Some (Rejected TypeError)
        \<and> \<not> stdin_raw s \<and> \<not> listeners s \<and> searches s = []
        \<and> drafts s = [UpdateInput (styled Dim (plain ''Enter your search''))]"
    using h C9_configuration_errors [of piped_opts] by force
  show ?thesis using 1 2 3 4 5 6 7 8 by blast
qed

text \<open>
  C10. While the session is pending and \<open>found\<close> is empty, the \<open>select\<close> event does what
  the \<open>end\<close> event does: the listeners are removed and the promise is resolved with
  \<open>undefined\<close> (\<open>found[line]\<close> of an empty array); nothing is thrown and the promise does
  not stay pending.
\<close>

theorem C10_select_on_empty:
  assumes "listeners s" "settled s = None" "found s = []"
  shows "emit opts now Select s = emit opts now End s
       \<and> (\<exists>s'. emit opts now Select s = Some (Inr s')
              \<and> settled s' = Some (Resolved None) \<and> \<not> listeners s')"
  using assms by (simp add: emit_def onSelect_def onEnd_def at_line_def end_fn_def)

theorem C10_select_on_empty_witness:
  "reachable search_opts keep_all started
   \<and> listeners started \<and> settled started = None \<and> found started = []
   \<and> emit search_opts 0 Select started = emit search_opts 0 End started
   \<and> (\<exists>s'. emit search_opts 0 Select started = Some (Inr s')
          \<and> settled s' = Some (Resolved None) \<and> \<not> listeners s')"
proof -
  have re: "reachable search_opts keep_all started"
    using construct_started by (rule reachable.constructed)
  have a: "listeners started" and c: "found started = []"
    by (simp_all add: started_view started_fields)
  have b: "settled started = None"
    by (simp add: started_def requestPage_fields) (simp add: initial_def)
  show ?thesis
    using re a b c C10_select_on_empty [OF a b c, of search_opts 0] by blast
qed

end
